theory Spec2Isabelle
  imports Main
begin

section \<open>Text and the Python library the program calls\<close>

text \<open>
  A Python \<open>str\<close> is a sequence of Unicode code points; a code point is a natural
  number here, and \<open>str_of\<close> turns an ASCII literal into such a sequence.
\<close>

type_synonym str = "nat list"

definition str_of :: "string \<Rightarrow> str" where
  "str_of s = map of_char s"

text \<open>
  The program calls \<open>unicodedata\<close>, \<open>str.lower\<close>, \<open>re\<close> (whose \<open>\<bsol>s\<close>, \<open>\<bsol>w\<close>
  and \<open>\<bsol>b\<close> follow the Unicode tables on \<open>str\<close> patterns) and \<open>hashlib\<close>. None
  of them is code of the repository. What they do on ASCII is fixed and written out
  below; what they do elsewhere is a parameter of the model, the record \<open>pylib\<close>, and
  every theorem holds whatever the parameter is.
\<close>

record pylib =
  nfkd_ext :: "str \<Rightarrow> str"
  combining_ext :: "nat \<Rightarrow> bool"
  lower_ext :: "str \<Rightarrow> str"
  isspace_ext :: "nat \<Rightarrow> bool"
  isalnum_ext :: "nat \<Rightarrow> bool"
  encode_utf8 :: "str \<Rightarrow> nat list"
  sha256 :: "nat list \<Rightarrow> nat list"

definition is_ascii :: "str \<Rightarrow> bool" where
  "is_ascii s = list_all (\<lambda>c. c < 128) s"

text \<open>\<open>unicodedata.normalize("NFKD", s)\<close>: an ASCII string is its own decomposition.\<close>

definition nfkd :: "pylib \<Rightarrow> str \<Rightarrow> str" where
  "nfkd L s = (if is_ascii s then s else nfkd_ext L s)"

text \<open>\<open>unicodedata.combining(ch)\<close> as a truth value: no ASCII character is a combining mark.\<close>

definition combining :: "pylib \<Rightarrow> nat \<Rightarrow> bool" where
  "combining L c = (128 \<le> c \<and> combining_ext L c)"

definition ascii_lower :: "nat \<Rightarrow> nat" where
  "ascii_lower c = (if 65 \<le> c \<and> c \<le> 90 then c + 32 else c)"

text \<open>\<open>s.lower()\<close>: on an ASCII string, \<open>A\<close>..\<open>Z\<close> become \<open>a\<close>..\<open>z\<close>.\<close>

definition lower :: "pylib \<Rightarrow> str \<Rightarrow> str" where
  "lower L s = (if is_ascii s then map ascii_lower s else lower_ext L s)"

text \<open>
  \<open>str.isspace\<close> on one character, which is also what \<open>\<bsol>s\<close>, \<open>str.strip()\<close> and
  \<open>str.split()\<close> test: in ASCII these are tab, line feed, vertical tab, form feed,
  carriage return, the four separators \<open>0x1c\<close>..\<open>0x1f\<close> and the space.
\<close>

definition isspace :: "pylib \<Rightarrow> nat \<Rightarrow> bool" where
  "isspace L c =
     (if c < 128 then (9 \<le> c \<and> c \<le> 13) \<or> (28 \<le> c \<and> c \<le> 32) else isspace_ext L c)"

definition is_digit :: "nat \<Rightarrow> bool" where
  "is_digit c = (48 \<le> c \<and> c \<le> 57)"

definition is_lower_az :: "nat \<Rightarrow> bool" where
  "is_lower_az c = (97 \<le> c \<and> c \<le> 122)"

text \<open>The class \<open>\<bsol>w\<close> of \<open>re\<close>: alphanumeric or underscore.\<close>

definition isword :: "pylib \<Rightarrow> nat \<Rightarrow> bool" where
  "isword L c =
     (if c < 128 then is_digit c \<or> is_lower_az c \<or> (65 \<le> c \<and> c \<le> 90) \<or> c = 95
      else isalnum_ext L c)"

text \<open>\<open>s.strip()\<close>: whitespace removed at both ends.\<close>

definition strip :: "pylib \<Rightarrow> str \<Rightarrow> str" where
  "strip L s = rev (dropWhile (isspace L) (rev (dropWhile (isspace L) s)))"

text \<open>
  \<open>s.split()\<close>: the maximal runs of characters that are not whitespace, in order.
\<close>

function split_ws :: "pylib \<Rightarrow> str \<Rightarrow> str list" where
  "split_ws L s =
     (case dropWhile (isspace L) s of
        [] \<Rightarrow> []
      | c # cs \<Rightarrow> (c # takeWhile (\<lambda>x. \<not> isspace L x) cs)
                 # split_ws L (dropWhile (\<lambda>x. \<not> isspace L x) cs))"
  by pat_completeness auto
termination
proof (relation "measure (\<lambda>(L, s). length s)")
  show "wf (measure (\<lambda>(L, s). length s))" by simp
next
  fix L :: pylib and s :: str and c cs
  assume a: "dropWhile (isspace L) s = c # cs"
  have "length (dropWhile (\<lambda>x. \<not> isspace L x) cs) \<le> length cs"
    by (rule length_dropWhile_le)
  moreover have "length (c # cs) \<le> length s"
    using length_dropWhile_le [of "isspace L" s] a by simp
  ultimately show "((L, dropWhile (\<lambda>x. \<not> isspace L x) cs), (L, s)) \<in> measure (\<lambda>(L, s). length s)"
    by simp
qed

declare split_ws.simps [simp del]

section \<open>The normalization routine\<close>

text \<open>
  \<open>re.sub(rf"\<bsol>b{re.escape(word)}\<bsol>b", digit, s)\<close> for a non-empty literal \<open>word\<close>.
  The scan goes left to right; \<open>prev\<close> says whether the character before the
  current position is a word character (False at the start of the string). At a
  position the pattern matches when there is a boundary before it, the text starts
  with \<open>word\<close>, and there is a boundary after \<open>word\<close>. A match is replaced by
  \<open>digit\<close> and the scan goes on after it; otherwise the character is copied.
\<close>

definition boundary :: "pylib \<Rightarrow> bool \<Rightarrow> str \<Rightarrow> bool" where
  "boundary L prev rest = (prev \<noteq> (case rest of [] \<Rightarrow> False | c # _ \<Rightarrow> isword L c))"

definition match_here :: "pylib \<Rightarrow> str \<Rightarrow> bool \<Rightarrow> str \<Rightarrow> bool" where
  "match_here L word prev s =
     (word \<noteq> [] \<and> boundary L prev s \<and> take (length word) s = word
      \<and> boundary L (isword L (last word)) (drop (length word) s))"

function re_sub_word :: "pylib \<Rightarrow> str \<Rightarrow> str \<Rightarrow> bool \<Rightarrow> str \<Rightarrow> str" where
  "re_sub_word L word digit prev [] = []"
| "re_sub_word L word digit prev (c # cs) =
     (if match_here L word prev (c # cs)
      then digit @ re_sub_word L word digit (isword L (last word)) (drop (length word) (c # cs))
      else c # re_sub_word L word digit (isword L c) cs)"
  by pat_completeness auto
termination
  by (relation "measure (\<lambda>(L, word, digit, prev, s). length s)")
     (auto simp: match_here_def)

declare re_sub_word.simps(2) [simp del]

text \<open>The table \<open>NUMBER_WORDS\<close>, in the order in which the dictionary is iterated.\<close>

definition NUMBER_WORDS :: "(str \<times> str) list" where
  "NUMBER_WORDS =
     [(str_of ''zero'', str_of ''0''), (str_of ''one'', str_of ''1''),
      (str_of ''two'', str_of ''2''), (str_of ''three'', str_of ''3''),
      (str_of ''four'', str_of ''4''), (str_of ''five'', str_of ''5''),
      (str_of ''six'', str_of ''6''), (str_of ''seven'', str_of ''7''),
      (str_of ''eight'', str_of ''8''), (str_of ''nine'', str_of ''9''),
      (str_of ''ten'', str_of ''10''), (str_of ''eleven'', str_of ''11''),
      (str_of ''twelve'', str_of ''12'')]"

text \<open>The loop over the table: one substitution after the other, each on the result of the last.\<close>

fun replace_number_words :: "pylib \<Rightarrow> (str \<times> str) list \<Rightarrow> str \<Rightarrow> str" where
  "replace_number_words L [] s = s"
| "replace_number_words L ((word, digit) # tbl) s =
     replace_number_words L tbl (re_sub_word L word digit False s)"

text \<open>\<open>re.sub(r"[^0-9a-z\<bsol>s]", "", s)\<close>\<close>

definition remove_punctuation :: "pylib \<Rightarrow> str \<Rightarrow> str" where
  "remove_punctuation L s = filter (\<lambda>c. is_digit c \<or> is_lower_az c \<or> isspace L c) s"

text \<open>\<open>re.sub(r"\<bsol>s+", " ", s)\<close>: each maximal run of whitespace becomes one space.\<close>

function collapse_ws :: "pylib \<Rightarrow> str \<Rightarrow> str" where
  "collapse_ws L [] = []"
| "collapse_ws L (c # cs) =
     (if isspace L c then 32 # collapse_ws L (dropWhile (isspace L) cs)
      else c # collapse_ws L cs)"
  by pat_completeness auto
termination
  by (relation "measure (\<lambda>(L, s). length s)")
     (auto simp: length_dropWhile_le less_Suc_eq_le)

definition normalize_answer :: "pylib \<Rightarrow> str option \<Rightarrow> str" where
  "normalize_answer L x =
     (case x of
        None \<Rightarrow> []
      | Some s0 \<Rightarrow>
          let s1 = nfkd L s0;
              s2 = filter (\<lambda>ch. \<not> combining L ch) s1;
              s3 = lower L s2;
              s4 = replace_number_words L NUMBER_WORDS s3;
              s5 = remove_punctuation L s4
          in strip L (collapse_ws L s5))"


section \<open>Stable ids\<close>

text \<open>
  \<open>hashlib\<close>'s \<open>hexdigest()\<close>: two lowercase hexadecimal digits for each byte of
  the digest. The digest itself, \<open>sha256\<close>, and the UTF-8 encoder are library
  parameters; bytes are numbers, reduced to their low eight bits here.
\<close>

definition hex_digit :: "nat \<Rightarrow> nat" where
  "hex_digit n = (if n < 10 then 48 + n else 87 + n)"

definition hexdigest :: "nat list \<Rightarrow> str" where
  "hexdigest bs = concat (map (\<lambda>b. [hex_digit (b div 16 mod 16), hex_digit (b mod 16)]) bs)"

definition compute_id :: "pylib \<Rightarrow> str \<Rightarrow> str" where
  "compute_id L question_text = hexdigest (sha256 L (encode_utf8 L (strip L question_text)))"

section \<open>The question store\<close>

text \<open>
  A parsed record is the dictionary \<open>{"id", "question", "answer"}\<close>. The manager's
  fields are \<open>_used\<close>, \<open>_questions\<close>, \<open>_id_map\<close> and \<open>_mtime\<close>; the lock and
  the path are not modelled. The backing file as one call sees it is either missing
  (\<open>None\<close>) or a readable text file with a modification time and the lines that
  iterating over it yields: \<open>os.path.getmtime\<close> fails and \<open>os.path.isfile\<close> is
  false exactly on \<open>None\<close>.
\<close>

record question_record =
  rec_id :: str
  question :: str
  answer :: str

record qm_state =
  used :: "str set"
  questions :: "question_record list"
  id_map :: "str \<rightharpoonup> question_record"
  mtime :: "int option"

type_synonym resource = "(int \<times> str list) option"

datatype error = FileNotFoundError | ValueError string | KeyError string

abbreviation EmptyStore :: error where
  "EmptyStore \<equiv> ValueError ''No questions found in file''"

abbreviation Exhausted :: error where
  "Exhausted \<equiv> ValueError ''No more unused questions available''"

abbreviation UnknownQuestion :: error where
  "UnknownQuestion \<equiv> KeyError ''Invalid question id''"

text \<open>\<open>line.split(sep, 1)\<close>: at most one split, at the first occurrence of \<open>sep\<close>.\<close>

definition split_first :: "nat \<Rightarrow> str \<Rightarrow> str list" where
  "split_first sep s =
     (case dropWhile (\<lambda>c. c \<noteq> sep) s of
        [] \<Rightarrow> [s]
      | _ # rest \<Rightarrow> [takeWhile (\<lambda>c. c \<noteq> sep) s, rest])"

text \<open>
  The body of the loop over the file, for one raw line: \<open>None\<close> where the source
  \<open>continue\<close>s or appends nothing. The delimiter \<open>|\<close> is code point 124. The last
  case stands for \<open>parts[1]\<close> out of range, which the test before it excludes.
\<close>

definition parse_line :: "pylib \<Rightarrow> str \<Rightarrow> question_record option" where
  "parse_line L raw =
     (let line = strip L raw in
      if line = [] then None
      else if 124 \<notin> set line then None
      else (case split_first 124 line of
              p0 # p1 # _ \<Rightarrow>
                let q = strip L p0; a = strip L p1
                in if q \<noteq> [] \<and> a \<noteq> []
                   then Some \<lparr>rec_id = compute_id L q, question = q, answer = a\<rparr>
                   else None
            | _ \<Rightarrow> None))"

fun parse_lines :: "pylib \<Rightarrow> str list \<Rightarrow> question_record list \<Rightarrow> question_record list" where
  "parse_lines L [] parsed = parsed"
| "parse_lines L (raw # fh) parsed =
     parse_lines L fh (case parse_line L raw of None \<Rightarrow> parsed | Some r \<Rightarrow> parsed @ [r])"

text \<open>\<open>{rec["id"]: rec for rec in parsed}\<close>: a later record overwrites an earlier one.\<close>

definition build_id_map :: "question_record list \<Rightarrow> (str \<rightharpoonup> question_record)" where
  "build_id_map parsed = foldl (\<lambda>m r. m(rec_id r \<mapsto> r)) Map.empty parsed"

definition load_questions_internal :: "pylib \<Rightarrow> resource \<Rightarrow> qm_state \<Rightarrow> error + qm_state" where
  "load_questions_internal L res st =
     (case res of
        None \<Rightarrow> Inl FileNotFoundError
      | Some (m, fh) \<Rightarrow>
          let parsed = parse_lines L fh []
          in if parsed = [] then Inl EmptyStore
             else Inr (st\<lparr>questions := parsed, id_map := build_id_map parsed\<rparr>))"

text \<open>An exception leaves the manager as it was, so only the success carries a state.\<close>

definition reload_if_needed :: "pylib \<Rightarrow> resource \<Rightarrow> bool \<Rightarrow> qm_state \<Rightarrow> error + qm_state" where
  "reload_if_needed L res force st =
     (case res of
        None \<Rightarrow> Inl FileNotFoundError
      | Some (m, fh) \<Rightarrow>
          if force \<or> mtime st = None \<or> mtime st \<noteq> Some m
          then (case load_questions_internal L res st of
                  Inl e \<Rightarrow> Inl e
                | Inr st' \<Rightarrow> Inr (st'\<lparr>mtime := Some m\<rparr>))
          else Inr st)"

definition init :: "pylib \<Rightarrow> resource \<Rightarrow> error + qm_state" where
  "init L res =
     reload_if_needed L res True \<lparr>used = {}, questions = [], id_map = Map.empty, mtime = None\<rparr>"

definition load_questions ::
  "pylib \<Rightarrow> resource \<Rightarrow> qm_state \<Rightarrow> (error + (str \<times> str) list) \<times> qm_state" where
  "load_questions L res st =
     (case reload_if_needed L res False st of
        Inl e \<Rightarrow> (Inl e, st)
      | Inr st1 \<Rightarrow> (Inr (map (\<lambda>r. (question r, answer r)) (questions st1)), st1))"

section \<open>The dispenser\<close>

text \<open>
  The dictionary that \<open>get_random_question\<close> returns, as its items in order.
  \<open>random.choice(available)\<close> returns \<open>available[i]\<close> for an index \<open>i\<close> below the
  length; the draw is the argument \<open>rnd\<close>, taken modulo the length, so every value
  of \<open>rnd\<close> is a possible draw and every possible draw is some \<open>rnd\<close>.
\<close>

datatype pyval = Str str | StrList "str list"

definition get_random_question ::
  "pylib \<Rightarrow> resource \<Rightarrow> nat \<Rightarrow> qm_state \<Rightarrow> (error + (string \<times> pyval) list) \<times> qm_state" where
  "get_random_question L res rnd st =
     (case reload_if_needed L res False st of
        Inl e \<Rightarrow> (Inl e, st)
      | Inr st1 \<Rightarrow>
          let available = filter (\<lambda>r. rec_id r \<notin> used st1) (questions st1)
          in if available = [] then (Inl Exhausted, st1)
             else let chosen = available ! (rnd mod length available);
                      st2 = st1\<lparr>used := insert (rec_id chosen) (used st1)\<rparr>;
                      words = split_ws L (question chosen)
                  in (Inr [(''id'', Str (rec_id chosen)),
                           (''question'', Str (question chosen)),
                           (''words'', StrList words)], st2))"

definition validate_answer ::
  "pylib \<Rightarrow> resource \<Rightarrow> str \<Rightarrow> str option \<Rightarrow> qm_state \<Rightarrow> (error + bool) \<times> qm_state" where
  "validate_answer L res question_id user_answer st =
     (case reload_if_needed L res False st of
        Inl e \<Rightarrow> (Inl e, st)
      | Inr st1 \<Rightarrow>
          (case id_map st1 question_id of
             None \<Rightarrow> (Inl UnknownQuestion, st1)
           | Some r \<Rightarrow>
               (case user_answer of
                  None \<Rightarrow> (Inr False, st1)
                | Some a \<Rightarrow>
                    (Inr (normalize_answer L (Some (answer r)) = normalize_answer L (Some a)),
                     st1))))"

definition clear_cache :: "qm_state \<Rightarrow> qm_state" where
  "clear_cache st = st\<lparr>used := {}\<rparr>"

definition get_cache_size :: "qm_state \<Rightarrow> nat" where
  "get_cache_size st = card (used st)"


section \<open>Notions used to state the properties\<close>

text \<open>
  An instance of the library for evaluating the model on ASCII text. Outside ASCII it
  knows no whitespace, no alphanumeric and no combining character and leaves strings
  as they are; an ASCII string is its own UTF-8 encoding; the digest is a stand-in
  that returns its input. The general theorems do not use it.
\<close>

definition ascii_lib :: pylib where
  "ascii_lib =
     \<lparr>nfkd_ext = (\<lambda>s. s), combining_ext = (\<lambda>c. False), lower_ext = (\<lambda>s. s),
      isspace_ext = (\<lambda>c. False), isalnum_ext = (\<lambda>c. False),
      encode_utf8 = (\<lambda>s. s), sha256 = (\<lambda>bs. bs)\<rparr>"

text \<open>
  Tokens: \<open>join_sp\<close> is \<open>" ".join(ts)\<close>; a token is a non-empty string without
  whitespace, a clean token one of ASCII digits and lowercase letters only.
  \<open>subst_token\<close> is the number-word loop seen from one token. \<open>rstrip\<close> is
  \<open>s.rstrip()\<close>.
\<close>

definition is_clean :: "nat \<Rightarrow> bool" where
  "is_clean c = (is_digit c \<or> is_lower_az c)"

definition rstrip :: "pylib \<Rightarrow> str \<Rightarrow> str" where
  "rstrip L s = rev (dropWhile (isspace L) (rev s))"

fun join_sp :: "str list \<Rightarrow> str" where
  "join_sp [] = []"
| "join_sp [t] = t"
| "join_sp (t # u # ts) = t @ 32 # join_sp (u # ts)"

definition is_token :: "pylib \<Rightarrow> str \<Rightarrow> bool" where
  "is_token L t = (t \<noteq> [] \<and> list_all (\<lambda>c. \<not> isspace L c) t)"

definition clean_token :: "str \<Rightarrow> bool" where
  "clean_token t = (t \<noteq> [] \<and> list_all is_clean t)"

fun subst_token :: "(str \<times> str) list \<Rightarrow> str \<Rightarrow> str" where
  "subst_token [] t = t"
| "subst_token ((word, digit) # tbl) t = subst_token tbl (if t = word then digit else t)"

text \<open>
  The shape of a normalized answer: digits, lowercase letters and spaces only, no two
  spaces in a row, no space at either end.
\<close>

fun no_double_space :: "str \<Rightarrow> bool" where
  "no_double_space [] = True"
| "no_double_space [c] = True"
| "no_double_space (a # b # cs) = (\<not> (a = 32 \<and> b = 32) \<and> no_double_space (b # cs))"

definition normal_form :: "str \<Rightarrow> bool" where
  "normal_form s =
     (list_all (\<lambda>c. is_digit c \<or> is_lower_az c \<or> c = 32) s
      \<and> no_double_space s
      \<and> (case s of [] \<Rightarrow> True | c # cs \<Rightarrow> c \<noteq> 32 \<and> last s \<noteq> 32))"

text \<open>
  Consecutive calls of \<open>get_random_question\<close> against one and the same backing
  file, one draw for each call, with the results in order. \<open>served_id\<close> reads the
  id out of a returned dictionary. The store is up to date when the file is there and
  its modification time is the recorded one, so that the reload check changes nothing;
  \<open>store_ids\<close> are the ids of the records held.
\<close>

definition served_id :: "(string \<times> pyval) list \<Rightarrow> str option" where
  "served_id d = (case map_of d ''id'' of Some (Str i) \<Rightarrow> Some i | _ \<Rightarrow> None)"

fun dispense ::
  "pylib \<Rightarrow> resource \<Rightarrow> nat list \<Rightarrow> qm_state
     \<Rightarrow> (error + (string \<times> pyval) list) list \<times> qm_state" where
  "dispense L res [] st = ([], st)"
| "dispense L res (rnd # rnds) st =
     (case get_random_question L res rnd st of
        (out, st1) \<Rightarrow> (case dispense L res rnds st1 of (outs, st2) \<Rightarrow> (out # outs, st2)))"

definition up_to_date :: "resource \<Rightarrow> qm_state \<Rightarrow> bool" where
  "up_to_date res st = (case res of None \<Rightarrow> False | Some (m, fh) \<Rightarrow> mtime st = Some m)"

definition store_ids :: "qm_state \<Rightarrow> str set" where
  "store_ids st = rec_id ` set (questions st)"

text \<open>
  Two small question files for evaluating the model, and the managers that \<open>init\<close>
  builds from them (lemmas \<open>demo_init\<close> and \<open>dup_init\<close>). The first has two
  valid lines among malformed ones; the second has the same question twice.
\<close>

definition demo_lines :: "str list" where
  "demo_lines =
     [str_of ''Q  1 | Paris'' @ [10], str_of ''no delimiter'' @ [10], [10],
      str_of '' | x'' @ [10], str_of ''Q2|7 a|b'' @ [10]]"

definition demo_file :: resource where
  "demo_file = Some (1, demo_lines)"

definition demo_store :: qm_state where
  "demo_store =
     \<lparr>used = {}, questions = parse_lines ascii_lib demo_lines [],
      id_map = build_id_map (parse_lines ascii_lib demo_lines []), mtime = Some 1\<rparr>"

definition dup_lines :: "str list" where
  "dup_lines = [str_of ''Q|A'' @ [10], str_of ''Q|B'' @ [10]]"

definition dup_file :: resource where
  "dup_file = Some (1, dup_lines)"

definition dup_store :: qm_state where
  "dup_store =
     \<lparr>used = {}, questions = parse_lines ascii_lib dup_lines [],
      id_map = build_id_map (parse_lines ascii_lib dup_lines []), mtime = Some 1\<rparr>"

section \<open>Whitespace, tokens and the number-word substitution\<close>

lemma isspace_32 [simp]: "isspace L 32"
  by (simp add: isspace_def)

lemma clean_not_space: "is_clean c \<Longrightarrow> \<not> isspace L c"
  by (auto simp: is_clean_def is_digit_def is_lower_az_def isspace_def)

lemma clean_isword: "is_clean c \<Longrightarrow> isword L c"
  by (auto simp: is_clean_def is_digit_def is_lower_az_def isword_def)

lemma not_isword_32 [simp]: "\<not> isword L 32"
  by (simp add: isword_def is_digit_def is_lower_az_def)

lemma strip_rstrip: "strip L s = rstrip L (dropWhile (isspace L) s)"
  by (simp add: strip_def rstrip_def)

lemma rstrip_Nil [simp]: "rstrip L [] = []"
  by (simp add: rstrip_def)

lemma rstrip_eq_Nil: "rstrip L s = [] \<longleftrightarrow> (\<forall>c\<in>set s. isspace L c)"
  by (auto simp: rstrip_def dropWhile_eq_Nil_conv)

lemma rstrip_append:
  "rstrip L (a @ b) = (if rstrip L b = [] then rstrip L a else a @ rstrip L b)"
  by (auto simp: rstrip_def dropWhile_append dropWhile_eq_Nil_conv)

lemma rstrip_id: "s \<noteq> [] \<Longrightarrow> \<not> isspace L (last s) \<Longrightarrow> rstrip L s = s"
  by (cases s rule: rev_cases) (auto simp: rstrip_def)

lemma rstrip_tok_sp:
  "t \<noteq> [] \<Longrightarrow> \<not> isspace L (last t) \<Longrightarrow>
   rstrip L (t @ 32 # X) = (if rstrip L X = [] then t else t @ 32 # rstrip L X)"
  by (cases t rule: rev_cases) (auto simp: rstrip_def dropWhile_append dropWhile_eq_Nil_conv)

lemma collapse_ws_prefix:
  "\<forall>c\<in>set u. \<not> isspace L c \<Longrightarrow> collapse_ws L (u @ r) = u @ collapse_ws L r"
  by (induction u) auto

lemma dropWhile_collapse_ws:
  "dropWhile (isspace L) (collapse_ws L s) = collapse_ws L (dropWhile (isspace L) s)"
proof (cases s)
  case Nil
  then show ?thesis by simp
next
  case (Cons c cs)
  show ?thesis
  proof (cases "isspace L c")
    case False
    with Cons show ?thesis by simp
  next
    case True
    have "dropWhile (isspace L) (collapse_ws L (dropWhile (isspace L) cs))
            = collapse_ws L (dropWhile (isspace L) cs)"
    proof (cases "dropWhile (isspace L) cs")
      case Nil
      show ?thesis unfolding Nil by simp
    next
      case (Cons d ds)
      then have "\<not> isspace L d"
        using hd_dropWhile [of "isspace L" cs] by auto
      with Cons show ?thesis by simp
    qed
    with Cons True show ?thesis by simp
  qed
qed

lemma split_ws_Nil: "dropWhile (isspace L) s = [] \<Longrightarrow> split_ws L s = []"
  by (subst split_ws.simps) (simp only: list.case)

lemma split_ws_Cons:
  "dropWhile (isspace L) s = c # cs \<Longrightarrow>
   split_ws L s = (c # takeWhile (\<lambda>x. \<not> isspace L x) cs)
                    # split_ws L (dropWhile (\<lambda>x. \<not> isspace L x) cs)"
  by (subst split_ws.simps) (simp only: list.case)

lemma split_ws_tokens: "t \<in> set (split_ws L s) \<Longrightarrow> is_token L t \<and> set t \<subseteq> set s"
proof (induction L s rule: split_ws.induct)
  case (1 L s)
  show ?case
  proof (cases "dropWhile (isspace L) s")
    case Nil
    with "1.prems" show ?thesis by (simp add: split_ws_Nil)
  next
    case (Cons c cs)
    have c: "\<not> isspace L c"
      using hd_dropWhile [of "isspace L" s] Cons by auto
    have sub: "set (c # cs) \<subseteq> set s"
      using set_dropWhileD [of _ "isspace L" s] Cons by auto
    from "1.prems" Cons have
      "t = c # takeWhile (\<lambda>x. \<not> isspace L x) cs
       \<or> t \<in> set (split_ws L (dropWhile (\<lambda>x. \<not> isspace L x) cs))"
      by (simp add: split_ws_Cons [OF Cons])
    then show ?thesis
    proof
      assume t: "t = c # takeWhile (\<lambda>x. \<not> isspace L x) cs"
      have "set (takeWhile (\<lambda>x. \<not> isspace L x) cs) \<subseteq> set cs"
        by (auto dest: set_takeWhileD)
      with t c sub show ?thesis
        by (auto simp: is_token_def list_all_iff dest: set_takeWhileD)
    next
      assume "t \<in> set (split_ws L (dropWhile (\<lambda>x. \<not> isspace L x) cs))"
      then have "is_token L t \<and> set t \<subseteq> set (dropWhile (\<lambda>x. \<not> isspace L x) cs)"
        using "1.IH" Cons by blast
      with sub show ?thesis
        by (auto dest: set_dropWhileD)
    qed
  qed
qed

lemma join_sp_eq_Nil: "\<forall>t\<in>set ts. t \<noteq> [] \<Longrightarrow> join_sp ts = [] \<longleftrightarrow> ts = []"
  by (induction ts rule: join_sp.induct) auto

lemma join_sp_Cons: "join_sp (t # ts) = (if ts = [] then t else t @ 32 # join_sp ts)"
  by (cases ts) auto

lemma rstrip_collapse_split:
  "rstrip L (collapse_ws L (dropWhile (isspace L) s)) = join_sp (split_ws L s)"
proof (induction L s rule: split_ws.induct)
  case (1 L s)
  show ?case
  proof (cases "dropWhile (isspace L) s")
    case Nil
    show ?thesis unfolding split_ws_Nil [OF Nil] Nil by simp
  next
    case (Cons c cs)
    let ?tok = "c # takeWhile (\<lambda>x. \<not> isspace L x) cs"
    let ?rest = "dropWhile (\<lambda>x. \<not> isspace L x) cs"
    have c: "\<not> isspace L c"
      using hd_dropWhile [of "isspace L" s] Cons by auto
    have tok: "\<forall>x\<in>set ?tok. \<not> isspace L x"
      using c by (auto dest: set_takeWhileD)
    have z: "c # cs = ?tok @ ?rest" by simp
    have IH: "rstrip L (collapse_ws L (dropWhile (isspace L) ?rest)) = join_sp (split_ws L ?rest)"
      using "1.IH" Cons by blast
    have sp: "split_ws L s = ?tok # split_ws L ?rest"
      by (rule split_ws_Cons [OF Cons])
    have col: "collapse_ws L (c # cs) = ?tok @ collapse_ws L ?rest"
      using collapse_ws_prefix [OF tok, of ?rest] by (simp only: z [symmetric])
    have toks: "\<forall>t\<in>set (split_ws L ?rest). t \<noteq> []"
      using split_ws_tokens by (auto simp: is_token_def)
    have last_tok: "\<not> isspace L (last ?tok)"
      using tok last_in_set [of ?tok] by blast
    show ?thesis
    proof (cases ?rest)
      case Nil
      have "split_ws L ?rest = []"
        by (rule split_ws_Nil) (simp add: Nil)
      moreover have "collapse_ws L (dropWhile (isspace L) s) = ?tok"
        unfolding Cons col Nil by simp
      moreover have "rstrip L ?tok = ?tok"
        using rstrip_id [of ?tok L] last_tok by simp
      ultimately show ?thesis
        by (simp only: sp join_sp.simps)
    next
      case rest: (Cons r rs)
      have r: "isspace L r"
        using hd_dropWhile [of "\<lambda>x. \<not> isspace L x" cs] rest by auto
      let ?X = "collapse_ws L (dropWhile (isspace L) ?rest)"
      have cr: "collapse_ws L ?rest = 32 # ?X"
        using rest r by simp
      have "rstrip L (?tok @ 32 # ?X)
              = (if rstrip L ?X = [] then ?tok else ?tok @ 32 # rstrip L ?X)"
        by (rule rstrip_tok_sp [OF _ last_tok]) simp
      moreover have "collapse_ws L (dropWhile (isspace L) s) = ?tok @ 32 # ?X"
        unfolding Cons col cr by simp
      moreover have "join_sp (split_ws L s)
              = (if split_ws L ?rest = [] then ?tok else ?tok @ 32 # join_sp (split_ws L ?rest))"
        unfolding sp by (rule join_sp_Cons)
      ultimately show ?thesis
        using IH join_sp_eq_Nil [OF toks] by simp
    qed
  qed
qed

lemma strip_collapse_split: "strip L (collapse_ws L s) = join_sp (split_ws L s)"
  by (simp add: strip_rstrip dropWhile_collapse_ws rstrip_collapse_split)

lemma clean_token_is_token: "clean_token t \<Longrightarrow> is_token L t"
  by (auto simp: clean_token_def is_token_def list_all_iff clean_not_space)

lemma split_ws_join_sp: "\<forall>t\<in>set ts. is_token L t \<Longrightarrow> split_ws L (join_sp ts) = ts"
proof (induction ts rule: join_sp.induct)
  case 1
  show ?case by (simp add: split_ws_Nil)
next
  case (2 t)
  then obtain c cs where t: "t = c # cs" and c: "\<not> isspace L c" and cs: "\<forall>x\<in>set cs. \<not> isspace L x"
    by (cases t) (auto simp: is_token_def list_all_iff)
  have d: "dropWhile (isspace L) t = c # cs" using t c by simp
  have tw: "takeWhile (\<lambda>x. \<not> isspace L x) cs = cs" using cs by simp
  have dw: "dropWhile (\<lambda>x. \<not> isspace L x) cs = []" using cs by simp
  have sn: "split_ws L [] = []" by (rule split_ws_Nil) simp
  show ?case
    unfolding join_sp.simps split_ws_Cons [OF d] tw dw sn by (simp add: t)
next
  case (3 t u ts)
  then obtain c cs where t: "t = c # cs" and c: "\<not> isspace L c" and cs: "\<forall>x\<in>set cs. \<not> isspace L x"
    by (cases t) (auto simp: is_token_def list_all_iff)
  have IH: "split_ws L (join_sp (u # ts)) = u # ts"
    using 3 by simp
  have d: "dropWhile (isspace L) (join_sp (t # u # ts)) = c # (cs @ 32 # join_sp (u # ts))"
    using t c by simp
  have tw: "takeWhile (\<lambda>x. \<not> isspace L x) (cs @ 32 # join_sp (u # ts)) = cs"
    using cs by (simp add: takeWhile_append2)
  have dw: "dropWhile (\<lambda>x. \<not> isspace L x) (cs @ 32 # join_sp (u # ts)) = 32 # join_sp (u # ts)"
    using cs by (simp add: dropWhile_append2)
  have "split_ws L (32 # join_sp (u # ts)) = split_ws L (join_sp (u # ts))"
    by (subst split_ws.simps, subst (2) split_ws.simps) simp
  with split_ws_Cons [OF d] tw dw IH t show ?case
    by simp
qed

lemma join_sp_chars: "set (join_sp ts) \<subseteq> insert 32 (\<Union> (set ` set ts))"
  by (induction ts rule: join_sp.induct) auto

lemma re_sub_word_in_word:
  "\<forall>c\<in>set u. isword L c \<Longrightarrow>
   re_sub_word L w d True (u @ r) = u @ re_sub_word L w d True r"
  by (induction u) (auto simp: re_sub_word.simps(2) match_here_def boundary_def)

lemma match_here_token:
  assumes w: "w \<noteq> []" "\<forall>c\<in>set w. isword L c"
    and t: "t \<noteq> []" "\<forall>c\<in>set t. isword L c"
    and r: "r = [] \<or> \<not> isword L (hd r)"
  shows "match_here L w False (t @ r) \<longleftrightarrow> t = w"
proof
  assume eq: "t = w"
  have "isword L (last w)" using w by simp
  moreover have "isword L (hd (t @ r))" using t by (cases t) auto
  ultimately show "match_here L w False (t @ r)"
    using w r t eq by (cases r; cases t) (auto simp: match_here_def boundary_def)
next
  assume m: "match_here L w False (t @ r)"
  then have tk: "take (length w) (t @ r) = w"
    and b: "boundary L (isword L (last w)) (drop (length w) (t @ r))"
    by (auto simp: match_here_def)
  have lw: "isword L (last w)" using w by simp
  show "t = w"
  proof (cases "length w" "length t" rule: linorder_cases)
    case less
    then have "drop (length w) (t @ r) = drop (length w) t @ r" by simp
    moreover from less obtain x xs where dx: "drop (length w) t = x # xs"
      by (cases "drop (length w) t") auto
    moreover have "x \<in> set t" using dx in_set_dropD [of x "length w" t] by simp
    ultimately show ?thesis using b lw t by (simp add: boundary_def)
  next
    case equal
    with tk show ?thesis by simp
  next
    case greater
    then have tk': "w = t @ take (length w - length t) r"
      using tk by simp
    show ?thesis
    proof (cases r)
      case Nil
      with tk' greater show ?thesis by simp
    next
      case (Cons x xs)
      with greater tk' have "x \<in> set w"
        by (cases "length w - length t") (auto simp: tk' [symmetric] dest: arg_cong [where f = set])
      with Cons r w show ?thesis by simp
    qed
  qed
qed

lemma re_sub_word_match:
  "match_here L w p s \<Longrightarrow>
   re_sub_word L w d p s = d @ re_sub_word L w d (isword L (last w)) (drop (length w) s)"
  by (cases s) (auto simp: re_sub_word.simps(2) match_here_def)

lemma re_sub_word_nomatch:
  "\<not> match_here L w p (c # cs) \<Longrightarrow>
   re_sub_word L w d p (c # cs) = c # re_sub_word L w d (isword L c) cs"
  by (simp add: re_sub_word.simps(2))

lemma re_sub_word_token:
  assumes w: "w \<noteq> []" "\<forall>c\<in>set w. isword L c"
    and t: "t \<noteq> []" "\<forall>c\<in>set t. isword L c"
    and r: "r = [] \<or> \<not> isword L (hd r)"
  shows "re_sub_word L w d False (t @ r)
           = (if t = w then d else t) @ re_sub_word L w d True r"
proof (cases "t = w")
  case True
  then have "match_here L w False (t @ r)"
    using match_here_token [OF w t r] by simp
  from re_sub_word_match [OF this, of d] True w show ?thesis
    by simp
next
  case False
  obtain c cs where tc: "t = c # cs" using t by (cases t) auto
  have "\<not> match_here L w False (c # (cs @ r))"
    using match_here_token [OF w t r] False tc by simp
  then have "re_sub_word L w d False (c # (cs @ r))
               = c # re_sub_word L w d (isword L c) (cs @ r)"
    by (rule re_sub_word_nomatch)
  moreover have "isword L c" using t tc by simp
  moreover have "re_sub_word L w d True (cs @ r) = cs @ re_sub_word L w d True r"
    using t tc by (intro re_sub_word_in_word) simp
  ultimately show ?thesis
    using False tc by simp
qed

lemma re_sub_word_space:
  assumes w: "w \<noteq> []" "\<forall>c\<in>set w. isword L c"
  shows "re_sub_word L w d True (32 # r) = 32 # re_sub_word L w d False r"
proof -
  have "\<not> match_here L w True (32 # r)"
    using w by (cases w) (auto simp: match_here_def)
  then show ?thesis by (simp add: re_sub_word.simps(2))
qed

lemma re_sub_word_join_sp:
  assumes w: "w \<noteq> []" "\<forall>c\<in>set w. isword L c"
  shows "\<forall>t\<in>set ts. t \<noteq> [] \<and> (\<forall>c\<in>set t. isword L c) \<Longrightarrow>
         re_sub_word L w d False (join_sp ts) = join_sp (map (\<lambda>t. if t = w then d else t) ts)"
proof (induction ts rule: join_sp.induct)
  case 1
  show ?case by simp
next
  case (2 t)
  then show ?case
    using re_sub_word_token [OF w, of t "[]" d] by simp
next
  case (3 t u ts)
  have "re_sub_word L w d False (t @ 32 # join_sp (u # ts))
          = (if t = w then d else t) @ re_sub_word L w d True (32 # join_sp (u # ts))"
    using re_sub_word_token [OF w, of t "32 # join_sp (u # ts)" d] 3 by simp
  also have "re_sub_word L w d True (32 # join_sp (u # ts))
          = 32 # re_sub_word L w d False (join_sp (u # ts))"
    by (rule re_sub_word_space [OF w])
  finally show ?case
    using 3 by simp
qed

lemma clean_not_32: "is_clean c \<Longrightarrow> c \<noteq> 32"
  by (auto simp: is_clean_def is_digit_def is_lower_az_def)

lemma clean_ascii: "is_clean c \<Longrightarrow> c < 128"
  by (auto simp: is_clean_def is_digit_def is_lower_az_def)

lemma clean_lower: "is_clean c \<or> c = 32 \<Longrightarrow> ascii_lower c = c"
  by (auto simp: is_clean_def is_digit_def is_lower_az_def ascii_lower_def)

lemma no_double_space_append:
  "no_double_space t \<Longrightarrow> no_double_space u \<Longrightarrow> t \<noteq> [] \<Longrightarrow> last t \<noteq> 32 \<Longrightarrow>
   no_double_space (t @ u)"
proof (induction t rule: no_double_space.induct)
  case 1
  then show ?case by simp
next
  case (2 c)
  then show ?case by (cases u) auto
next
  case (3 a b cs)
  then show ?case by simp
qed

lemma no_double_space_clean: "\<forall>c\<in>set t. c \<noteq> 32 \<Longrightarrow> no_double_space t"
  by (induction t rule: no_double_space.induct) auto

lemma join_sp_shape:
  "\<forall>t\<in>set ts. clean_token t \<Longrightarrow>
   no_double_space (join_sp ts)
   \<and> (ts \<noteq> [] \<longrightarrow> join_sp ts \<noteq> [] \<and> hd (join_sp ts) \<noteq> 32 \<and> last (join_sp ts) \<noteq> 32)"
proof (induction ts rule: join_sp.induct)
  case 1
  show ?case by simp
next
  case (2 t)
  then have t: "t \<noteq> []" "\<forall>c\<in>set t. c \<noteq> 32"
    by (auto simp: clean_token_def list_all_iff clean_not_32)
  then have "hd t \<noteq> 32" "last t \<noteq> 32" by auto
  with t show ?case by (simp add: no_double_space_clean)
next
  case (3 t u ts)
  then have t: "t \<noteq> []" "\<forall>c\<in>set t. c \<noteq> 32"
    by (auto simp: clean_token_def list_all_iff clean_not_32)
  then have ht: "hd t \<noteq> 32" "last t \<noteq> 32" by auto
  have IH: "no_double_space (join_sp (u # ts))" "join_sp (u # ts) \<noteq> []"
    "hd (join_sp (u # ts)) \<noteq> 32" "last (join_sp (u # ts)) \<noteq> 32"
    using 3 by simp_all
  have "no_double_space (32 # join_sp (u # ts))"
    using IH by (cases "join_sp (u # ts)") auto
  then have "no_double_space (t @ 32 # join_sp (u # ts))"
    using t ht by (intro no_double_space_append) (auto simp: no_double_space_clean)
  with t ht IH show ?case by simp
qed

lemma join_sp_normal_form:
  assumes "\<forall>t\<in>set ts. clean_token t"
  shows "normal_form (join_sp ts)"
proof -
  have "\<forall>c\<in>set (join_sp ts). is_clean c \<or> c = 32"
    using join_sp_chars [of ts] assms by (auto simp: clean_token_def list_all_iff)
  moreover have "ts = [] \<Longrightarrow> join_sp ts = []" by simp
  ultimately show ?thesis
    using join_sp_shape [OF assms]
    by (cases "join_sp ts") (auto simp: normal_form_def list_all_iff is_clean_def)
qed

lemma table_clean: "\<forall>(w, d)\<in>set NUMBER_WORDS. clean_token w \<and> clean_token d"
  by (simp add: NUMBER_WORDS_def str_of_def clean_token_def is_clean_def is_digit_def is_lower_az_def)

lemma subst_token_clean:
  "\<forall>(w, d)\<in>set tbl. clean_token w \<and> clean_token d \<Longrightarrow> clean_token t \<Longrightarrow>
   clean_token (subst_token tbl t)"
  by (induction tbl arbitrary: t) auto

lemma replace_number_words_join_sp:
  "\<forall>(w, d)\<in>set tbl. clean_token w \<and> clean_token d \<Longrightarrow> \<forall>t\<in>set ts. clean_token t \<Longrightarrow>
   replace_number_words L tbl (join_sp ts) = join_sp (map (subst_token tbl) ts)"
proof (induction tbl arbitrary: ts)
  case Nil
  show ?case by simp
next
  case (Cons p tbl)
  obtain w d where p: "p = (w, d)" by (cases p)
  have w: "w \<noteq> []" "\<forall>c\<in>set w. isword L c" and d: "clean_token d"
    using Cons.prems(1) p by (auto simp: clean_token_def list_all_iff clean_isword)
  have ts: "\<forall>t\<in>set ts. t \<noteq> [] \<and> (\<forall>c\<in>set t. isword L c)"
    using Cons.prems(2) by (auto simp: clean_token_def list_all_iff clean_isword)
  let ?ts = "map (\<lambda>t. if t = w then d else t) ts"
  have "\<forall>t\<in>set ?ts. clean_token t"
    using Cons.prems(2) d by auto
  moreover have "\<forall>(w, d)\<in>set tbl. clean_token w \<and> clean_token d"
    using Cons.prems(1) by simp
  ultimately have "replace_number_words L tbl (join_sp ?ts) = join_sp (map (subst_token tbl) ?ts)"
    by (rule Cons.IH [rotated])
  then show ?case
    using re_sub_word_join_sp [OF w ts, of d] by (simp add: p comp_def)
qed

lemma normalize_join_sp:
  assumes ts: "\<forall>t\<in>set ts. clean_token t"
  shows "normalize_answer L (Some (join_sp ts)) = join_sp (map (subst_token NUMBER_WORDS) ts)"
proof -
  let ?F = "subst_token NUMBER_WORDS"
  have chars: "\<forall>c\<in>set (join_sp ts). is_clean c \<or> c = 32"
    using join_sp_chars [of ts] ts by (auto simp: clean_token_def list_all_iff)
  then have asc: "is_ascii (join_sp ts)"
    by (auto simp: is_ascii_def list_all_iff dest: clean_ascii)
  have s1: "nfkd L (join_sp ts) = join_sp ts"
    using asc by (simp add: nfkd_def)
  have s2: "filter (\<lambda>ch. \<not> combining L ch) (join_sp ts) = join_sp ts"
    using asc by (auto simp: is_ascii_def list_all_iff combining_def filter_id_conv)
  have "map ascii_lower (join_sp ts) = join_sp ts"
    using chars by (intro map_idI) (simp add: clean_lower)
  then have s3: "lower L (join_sp ts) = join_sp ts"
    using asc by (simp add: lower_def)
  have s4: "replace_number_words L NUMBER_WORDS (join_sp ts) = join_sp (map ?F ts)"
    by (rule replace_number_words_join_sp [OF table_clean ts])
  have ts': "\<forall>t\<in>set (map ?F ts). clean_token t"
    using ts subst_token_clean [OF table_clean] by simp
  have "\<forall>c\<in>set (join_sp (map ?F ts)). is_clean c \<or> c = 32"
    using join_sp_chars [of "map ?F ts"] ts' by (auto simp: clean_token_def list_all_iff)
  then have s5: "remove_punctuation L (join_sp (map ?F ts)) = join_sp (map ?F ts)"
    by (auto simp: remove_punctuation_def filter_id_conv is_clean_def)
  have tk': "\<forall>t\<in>set (map ?F ts). is_token L t"
    using ts' clean_token_is_token by blast
  have s6: "strip L (collapse_ws L (join_sp (map ?F ts))) = join_sp (map ?F ts)"
    by (simp only: strip_collapse_split split_ws_join_sp [OF tk'])
  show ?thesis
    by (simp add: normalize_answer_def Let_def s1 s2 s3 s4 s5 s6)
qed

lemma normalize_tokens:
  "\<exists>ts. (\<forall>t\<in>set ts. clean_token t) \<and> normalize_answer L x = join_sp ts"
proof (cases x)
  case None
  have "normalize_answer L None = join_sp []" by (simp add: normalize_answer_def)
  with None show ?thesis by (intro exI [of _ "[]"]) simp
next
  case (Some s0)
  define s5 where "s5 = remove_punctuation L (replace_number_words L NUMBER_WORDS
      (lower L (filter (\<lambda>ch. \<not> combining L ch) (nfkd L s0))))"
  have n: "normalize_answer L x = join_sp (split_ws L s5)"
    by (simp add: Some normalize_answer_def Let_def s5_def strip_collapse_split)
  have "clean_token t" if "t \<in> set (split_ws L s5)" for t
  proof -
    from split_ws_tokens [OF that] have tk: "is_token L t" and sub: "set t \<subseteq> set s5" by auto
    have "is_clean c" if "c \<in> set t" for c
    proof -
      have "\<not> isspace L c" using tk that by (auto simp: is_token_def list_all_iff)
      moreover have "is_digit c \<or> is_lower_az c \<or> isspace L c"
        using sub that by (auto simp: s5_def remove_punctuation_def)
      ultimately show ?thesis by (simp add: is_clean_def)
    qed
    with tk show ?thesis by (simp add: clean_token_def is_token_def list_all_iff)
  qed
  with n show ?thesis by blast
qed

lemma subst_token_fix: "t \<notin> fst ` set tbl \<Longrightarrow> subst_token tbl t = t"
  by (induction tbl arbitrary: t) auto

lemma subst_token_range:
  "snd ` set tbl \<inter> fst ` set all = {} \<Longrightarrow> set tbl \<subseteq> set all \<Longrightarrow> t \<in> fst ` set tbl \<Longrightarrow>
   subst_token tbl t \<in> snd ` set all"
proof (induction tbl arbitrary: t)
  case Nil
  then show ?case by simp
next
  case (Cons p tbl)
  obtain w d where p: "p = (w, d)" by (cases p)
  show ?case
  proof (cases "t = w")
    case True
    have "d \<notin> fst ` set all" using Cons.prems(1) p by auto
    then have "d \<notin> fst ` set tbl" using Cons.prems(2) by auto
    then have "subst_token tbl d = d" by (rule subst_token_fix)
    moreover have "d \<in> snd ` set all" using Cons.prems(2) p by force
    ultimately show ?thesis using True p by simp
  next
    case False
    then have "t \<in> fst ` set tbl" using Cons.prems(3) p by auto
    moreover have "snd ` set tbl \<inter> fst ` set all = {}" using Cons.prems(1) by auto
    ultimately have "subst_token tbl t \<in> snd ` set all"
      using Cons.prems(2) by (intro Cons.IH) auto
    with False p show ?thesis by simp
  qed
qed

lemma digits_not_words: "snd ` set NUMBER_WORDS \<inter> fst ` set NUMBER_WORDS = {}"
  by (simp add: NUMBER_WORDS_def str_of_def)

lemma subst_token_not_word: "subst_token NUMBER_WORDS t \<notin> fst ` set NUMBER_WORDS"
proof (cases "t \<in> fst ` set NUMBER_WORDS")
  case True
  from subst_token_range [OF digits_not_words subset_refl True] digits_not_words
  show ?thesis by blast
next
  case False
  then show ?thesis by (simp add: subst_token_fix)
qed

lemma subst_token_idem:
  "subst_token NUMBER_WORDS (subst_token NUMBER_WORDS t) = subst_token NUMBER_WORDS t"
  by (rule subst_token_fix) (rule subst_token_not_word)

lemma subst_token_changes:
  "t \<in> fst ` set NUMBER_WORDS \<Longrightarrow> subst_token NUMBER_WORDS t \<noteq> t"
  using subst_token_not_word [of t] by auto

lemma map_eq_self_iff: "map f xs = xs \<longleftrightarrow> (\<forall>x\<in>set xs. f x = x)"
  by (induction xs) auto

section \<open>Ids, parsing, reloading and dispensing\<close>

lemma reload_up_to_date: "up_to_date res st \<Longrightarrow> reload_if_needed L res False st = Inr st"
  by (auto simp: up_to_date_def reload_if_needed_def split: option.splits)

lemma up_to_date_used [simp]: "up_to_date res (st\<lparr>used := U\<rparr>) = up_to_date res st"
  by (simp add: up_to_date_def split: option.splits)

lemma store_ids_used [simp]: "store_ids (st\<lparr>used := U\<rparr>) = store_ids st"
  by (simp add: store_ids_def)

lemma get_random_question_exhausted:
  assumes "up_to_date res st" "store_ids st \<subseteq> used st"
  shows "get_random_question L res rnd st = (Inl Exhausted, st)"
proof -
  have "filter (\<lambda>r. rec_id r \<notin> used st) (questions st) = []"
    using assms(2) by (auto simp: store_ids_def filter_empty_conv)
  then show ?thesis
    by (simp add: get_random_question_def reload_up_to_date [OF assms(1)])
qed

lemma get_random_question_step:
  assumes u: "up_to_date res st" and a: "\<not> store_ids st \<subseteq> used st"
  shows "\<exists>d i. get_random_question L res rnd st = (Inr d, st\<lparr>used := insert i (used st)\<rparr>)
            \<and> served_id d = Some i \<and> i \<in> store_ids st - used st"
proof -
  let ?av = "filter (\<lambda>r. rec_id r \<notin> used st) (questions st)"
  have ne: "?av \<noteq> []"
    using a by (auto simp: store_ids_def filter_empty_conv)
  let ?ch = "?av ! (rnd mod length ?av)"
  have "?ch \<in> set ?av"
    using ne by (intro nth_mem) simp
  then have ch: "rec_id ?ch \<in> store_ids st - used st"
    by (auto simp: store_ids_def)
  have "get_random_question L res rnd st =
      (Inr [(''id'', Str (rec_id ?ch)), (''question'', Str (question ?ch)),
            (''words'', StrList (split_ws L (question ?ch)))],
       st\<lparr>used := insert (rec_id ?ch) (used st)\<rparr>)"
    using ne by (simp add: get_random_question_def reload_up_to_date [OF u] Let_def)
  moreover have "served_id [(''id'', Str (rec_id ?ch)), (''question'', Str (question ?ch)),
            (''words'', StrList (split_ws L (question ?ch)))] = Some (rec_id ?ch)"
    by (simp add: served_id_def)
  ultimately show ?thesis using ch by blast
qed

lemma dispense_run:
  "up_to_date res st \<Longrightarrow> length rnds \<le> card (store_ids st - used st) \<Longrightarrow>
   \<exists>ds is. dispense L res rnds st = (map Inr ds, st\<lparr>used := used st \<union> set is\<rparr>)
      \<and> map served_id ds = map Some is \<and> distinct is
      \<and> set is \<subseteq> store_ids st - used st \<and> length is = length rnds"
proof (induction rnds arbitrary: st)
  case Nil
  have "dispense L res [] st = (map Inr [], st\<lparr>used := used st \<union> set []\<rparr>)" by simp
  then show ?case by (intro exI [of _ "[]"]) simp
next
  case (Cons rnd rnds)
  have fin: "finite (store_ids st - used st)" by (simp add: store_ids_def)
  have "card (store_ids st - used st) \<noteq> 0" using Cons.prems(2) by auto
  then have "\<not> store_ids st \<subseteq> used st" using fin by auto
  from get_random_question_step [OF Cons.prems(1) this, of L rnd]
  obtain d i where g: "get_random_question L res rnd st = (Inr d, st\<lparr>used := insert i (used st)\<rparr>)"
    and d: "served_id d = Some i" and i: "i \<in> store_ids st - used st" by blast
  let ?st1 = "st\<lparr>used := insert i (used st)\<rparr>"
  have u1: "up_to_date res ?st1" using Cons.prems(1) by simp
  have ids1: "store_ids ?st1 = store_ids st" by (simp add: store_ids_def)
  have diff1: "store_ids ?st1 - used ?st1 = (store_ids st - used st) - {i}"
    by (auto simp: ids1)
  have "card ((store_ids st - used st) - {i}) = card (store_ids st - used st) - 1"
    using i fin by (simp add: card_Diff_singleton)
  then have "length rnds \<le> card ((store_ids st - used st) - {i})"
    using Cons.prems(2) by simp
  then have len: "length rnds \<le> card (store_ids ?st1 - used ?st1)"
    by (simp only: diff1)
  from Cons.IH [OF u1 len]
  obtain ds "is" where r: "dispense L res rnds ?st1 = (map Inr ds, ?st1\<lparr>used := used ?st1 \<union> set is\<rparr>)"
    and m: "map served_id ds = map Some is" and di: "distinct is"
    and sub: "set is \<subseteq> store_ids ?st1 - used ?st1" and l: "length is = length rnds" by blast
  have sub': "set is \<subseteq> (store_ids st - used st) - {i}"
    using sub by auto
  have "dispense L res (rnd # rnds) st
          = (map Inr (d # ds), st\<lparr>used := used st \<union> set (i # is)\<rparr>)"
    using g r by simp
  moreover have "map served_id (d # ds) = map Some (i # is)" using d m by simp
  moreover have "distinct (i # is)" using di sub' by auto
  moreover have "set (i # is) \<subseteq> store_ids st - used st" using i sub' by auto
  moreover have "length (i # is) = length (rnd # rnds)" using l by simp
  ultimately show ?case by blast
qed

lemma dispense_append:
  "dispense L res (xs @ ys) st =
     (case dispense L res xs st of
        (outs, st1) \<Rightarrow> (case dispense L res ys st1 of (outs', st2) \<Rightarrow> (outs @ outs', st2)))"
  by (induction xs arbitrary: st) (auto split: prod.splits)

lemma dispense_all:
  assumes u: "up_to_date res st" and len: "length rnds = card (store_ids st - used st)"
  shows "\<exists>ds is. fst (dispense L res (rnds @ [rnd]) st) = map Inr ds @ [Inl Exhausted]
      \<and> map served_id ds = map Some is \<and> distinct is
      \<and> set is = store_ids st - used st \<and> length ds = length rnds"
proof -
  from dispense_run [OF u, of rnds L] len
  obtain ds "is" where r: "dispense L res rnds st = (map Inr ds, st\<lparr>used := used st \<union> set is\<rparr>)"
    and m: "map served_id ds = map Some is" and di: "distinct is"
    and sub: "set is \<subseteq> store_ids st - used st" and l: "length is = length rnds" by auto
  have fin: "finite (store_ids st - used st)" by (simp add: store_ids_def)
  have "card (set is) = card (store_ids st - used st)"
    using di l len by (simp add: distinct_card)
  with sub fin have eq: "set is = store_ids st - used st"
    by (simp add: card_subset_eq)
  let ?st1 = "st\<lparr>used := used st \<union> set is\<rparr>"
  have "up_to_date res ?st1" using u by simp
  moreover have "store_ids ?st1 \<subseteq> used ?st1" using eq by (auto simp: store_ids_def)
  ultimately have "get_random_question L res rnd ?st1 = (Inl Exhausted, ?st1)"
    by (rule get_random_question_exhausted)
  then have "fst (dispense L res (rnds @ [rnd]) st) = map Inr ds @ [Inl Exhausted]"
    using r by (simp add: dispense_append)
  moreover have "length ds = length rnds"
    using m l by (metis length_map)
  ultimately show ?thesis using m di eq by blast
qed

lemma demo_parsed: "parse_lines ascii_lib demo_lines [] =
  [\<lparr>rec_id = str_of ''51202031'', question = str_of ''Q  1'', answer = str_of ''Paris''\<rparr>,
   \<lparr>rec_id = str_of ''5132'', question = str_of ''Q2'', answer = str_of ''7 a|b''\<rparr>]"
  by code_simp

lemma demo_init: "init ascii_lib demo_file = Inr demo_store"
proof -
  have "parse_lines ascii_lib demo_lines [] \<noteq> []"
    unfolding demo_parsed by simp
  then show ?thesis
    by (simp add: init_def reload_if_needed_def load_questions_internal_def demo_file_def
        demo_store_def Let_def)
qed

lemma dup_parsed: "parse_lines ascii_lib dup_lines [] =
  [\<lparr>rec_id = str_of ''51'', question = str_of ''Q'', answer = str_of ''A''\<rparr>,
   \<lparr>rec_id = str_of ''51'', question = str_of ''Q'', answer = str_of ''B''\<rparr>]"
  by code_simp

lemma dup_init: "init ascii_lib dup_file = Inr dup_store"
proof -
  have "parse_lines ascii_lib dup_lines [] \<noteq> []"
    unfolding dup_parsed by simp
  then show ?thesis
    by (simp add: init_def reload_if_needed_def load_questions_internal_def dup_file_def
        dup_store_def Let_def)
qed

lemma exhausted_iff:
  assumes "up_to_date res st"
  shows "fst (get_random_question L res rnd st) = Inl Exhausted \<longleftrightarrow> store_ids st \<subseteq> used st"
proof (cases "store_ids st \<subseteq> used st")
  case True
  with get_random_question_exhausted [OF assms True, of L rnd] show ?thesis by simp
next
  case False
  from get_random_question_step [OF assms False, of L rnd] False show ?thesis by auto
qed

lemma filter_dropWhile_neg: "filter (\<lambda>c. \<not> P c) (dropWhile P s) = filter (\<lambda>c. \<not> P c) s"
  by (induction s) auto

lemma filter_takeWhile_dropWhile: "filter Q s = takeWhile Q s @ filter Q (dropWhile Q s)"
  by (induction s) auto

lemma concat_split_ws: "concat (split_ws L s) = filter (\<lambda>c. \<not> isspace L c) s"
proof (induction L s rule: split_ws.induct)
  case (1 L s)
  show ?case
  proof (cases "dropWhile (isspace L) s")
    case Nil
    have "filter (\<lambda>c. \<not> isspace L c) s = []"
      using filter_dropWhile_neg [of "isspace L" s] unfolding Nil by simp
    then show ?thesis unfolding split_ws_Nil [OF Nil] by simp
  next
    case (Cons c cs)
    have c: "\<not> isspace L c"
      using hd_dropWhile [of "isspace L" s] Cons by auto
    have IH: "concat (split_ws L (dropWhile (\<lambda>x. \<not> isspace L x) cs))
               = filter (\<lambda>c. \<not> isspace L c) (dropWhile (\<lambda>x. \<not> isspace L x) cs)"
      using "1.IH" Cons by blast
    have "filter (\<lambda>c. \<not> isspace L c) s = filter (\<lambda>c. \<not> isspace L c) (c # cs)"
      using filter_dropWhile_neg [of "isspace L" s] unfolding Cons by simp
    also have "\<dots> = c # filter (\<lambda>c. \<not> isspace L c) cs"
      using c by simp
    also have "filter (\<lambda>c. \<not> isspace L c) cs
                 = takeWhile (\<lambda>x. \<not> isspace L x) cs
                    @ filter (\<lambda>c. \<not> isspace L c) (dropWhile (\<lambda>x. \<not> isspace L x) cs)"
      by (rule filter_takeWhile_dropWhile)
    finally show ?thesis
      unfolding split_ws_Cons [OF Cons] using IH by simp
  qed
qed

lemma hex_digit_range: "n < 16 \<Longrightarrow> is_digit (hex_digit n) \<or> (97 \<le> hex_digit n \<and> hex_digit n \<le> 102)"
  by (auto simp: hex_digit_def is_digit_def)

lemma hexdigest_chars: "list_all (\<lambda>c. is_digit c \<or> (97 \<le> c \<and> c \<le> 102)) (hexdigest bs)"
proof -
  have "is_digit (hex_digit (b div 16 mod 16)) \<or> (97 \<le> hex_digit (b div 16 mod 16) \<and> hex_digit (b div 16 mod 16) \<le> 102)" for b
    by (rule hex_digit_range) simp
  moreover have "is_digit (hex_digit (b mod 16)) \<or> (97 \<le> hex_digit (b mod 16) \<and> hex_digit (b mod 16) \<le> 102)" for b
    by (rule hex_digit_range) simp
  ultimately show ?thesis
    by (induction bs) (simp_all add: hexdigest_def)
qed

lemma hexdigest_length: "length (hexdigest bs) = 2 * length bs"
  by (induction bs) (simp_all add: hexdigest_def)

lemma rstrip_prefix: "\<exists>w. s = rstrip L s @ w"
proof -
  have "rev s = takeWhile (isspace L) (rev s) @ dropWhile (isspace L) (rev s)" by simp
  then have "rev (rev s) = rev (takeWhile (isspace L) (rev s) @ dropWhile (isspace L) (rev s))"
    by (rule arg_cong)
  then have "s = rstrip L s @ rev (takeWhile (isspace L) (rev s))"
    by (simp add: rstrip_def del: takeWhile_dropWhile_id)
  then show ?thesis ..
qed

lemma rstrip_last: "rstrip L s \<noteq> [] \<Longrightarrow> \<not> isspace L (last (rstrip L s))"
  using hd_dropWhile [of "isspace L" "rev s"]
  by (simp add: rstrip_def last_rev)

lemma dropWhile_hd_id: "t \<noteq> [] \<Longrightarrow> \<not> P (hd t) \<Longrightarrow> dropWhile P t = t"
  by (cases t) auto

lemma strip_idem: "strip L (strip L s) = strip L s"
proof (cases "strip L s = []")
  case True
  have "strip L [] = []" by (simp add: strip_def)
  with True show ?thesis by simp
next
  case False
  let ?u = "dropWhile (isspace L) s"
  have v: "strip L s = rstrip L ?u" by (rule strip_rstrip)
  obtain w where u: "?u = rstrip L ?u @ w" using rstrip_prefix by blast
  have une: "?u \<noteq> []"
  proof
    assume e: "?u = []"
    have "rstrip L ?u = []" unfolding e by simp
    with False v show False by simp
  qed
  then have "\<not> isspace L (hd ?u)" by (rule hd_dropWhile)
  moreover have "hd ?u = hd (rstrip L ?u)"
    using u False v by (metis hd_append2)
  ultimately have "\<not> isspace L (hd (strip L s))"
    by (simp add: v)
  with False have "dropWhile (isspace L) (strip L s) = strip L s"
    by (rule dropWhile_hd_id)
  moreover have "rstrip L (strip L s) = strip L s"
    using rstrip_last [of L ?u] False v by (simp add: rstrip_id)
  ultimately show ?thesis
    using strip_rstrip [of L "strip L s"] by simp
qed

lemma build_id_map_snoc:
  "build_id_map (rs @ [r]) = (build_id_map rs)(rec_id r \<mapsto> r)"
  by (simp add: build_id_map_def)

lemma build_id_map_find:
  "build_id_map parsed i = find (\<lambda>r. rec_id r = i) (rev parsed)"
proof (induction parsed rule: rev_induct)
  case Nil
  show ?case by (simp add: build_id_map_def)
next
  case (snoc r rs)
  then show ?case by (simp add: build_id_map_snoc)
qed

lemma parse_lines_acc: "parse_lines L fh acc = acc @ List.map_filter (parse_line L) fh"
  by (induction fh arbitrary: acc) (auto simp: List.map_filter_simps split: option.splits)

lemma parse_lines_map_filter: "parse_lines L fh [] = List.map_filter (parse_line L) fh"
  by (simp add: parse_lines_acc)

lemma split_first_at:
  assumes "sep \<notin> set p0"
  shows "split_first sep (p0 @ sep # p1) = [p0, p1]"
proof -
  have a: "\<And>x. x \<in> set p0 \<Longrightarrow> x \<noteq> sep" using assms by auto
  have d: "dropWhile (\<lambda>c. c \<noteq> sep) (p0 @ sep # p1) = sep # p1"
    using dropWhile_append2 [of p0 "\<lambda>c. c \<noteq> sep" "sep # p1"] a by simp
  have t: "takeWhile (\<lambda>c. c \<noteq> sep) (p0 @ sep # p1) = p0"
    using takeWhile_append2 [of p0 "\<lambda>c. c \<noteq> sep" "sep # p1"] a by simp
  show ?thesis
    unfolding split_first_def d t by simp
qed

lemma split_first_two:
  "sep \<in> set s \<Longrightarrow> \<exists>p0 p1. s = p0 @ sep # p1 \<and> sep \<notin> set p0 \<and> split_first sep s = [p0, p1]"
proof -
  assume "sep \<in> set s"
  then obtain p0 p1 where "s = p0 @ sep # p1" "sep \<notin> set p0"
    by (auto dest: split_list_first)
  then show ?thesis using split_first_at [of sep p0 p1] by blast
qed

lemma parse_line_Some_iff:
  "parse_line L raw = Some r \<longleftrightarrow>
     (\<exists>p0 p1. strip L raw = p0 @ 124 # p1 \<and> 124 \<notin> set p0
        \<and> strip L p0 \<noteq> [] \<and> strip L p1 \<noteq> []
        \<and> r = \<lparr>rec_id = compute_id L (strip L p0), question = strip L p0, answer = strip L p1\<rparr>)"
proof
  assume a: "parse_line L raw = Some r"
  then have ne: "strip L raw \<noteq> []" and d: "124 \<in> set (strip L raw)"
    by (auto simp: parse_line_def Let_def split: if_splits)
  from split_first_two [OF d] obtain p0 p1 where
    s: "strip L raw = p0 @ 124 # p1" and n: "124 \<notin> set p0"
    and sf: "split_first 124 (strip L raw) = [p0, p1]" by blast
  from a ne d sf have "strip L p0 \<noteq> [] \<and> strip L p1 \<noteq> []
        \<and> r = \<lparr>rec_id = compute_id L (strip L p0), question = strip L p0, answer = strip L p1\<rparr>"
    by (auto simp: parse_line_def Let_def split: if_splits)
  with s n show "\<exists>p0 p1. strip L raw = p0 @ 124 # p1 \<and> 124 \<notin> set p0
        \<and> strip L p0 \<noteq> [] \<and> strip L p1 \<noteq> []
        \<and> r = \<lparr>rec_id = compute_id L (strip L p0), question = strip L p0, answer = strip L p1\<rparr>"
    by blast
next
  assume "\<exists>p0 p1. strip L raw = p0 @ 124 # p1 \<and> 124 \<notin> set p0
        \<and> strip L p0 \<noteq> [] \<and> strip L p1 \<noteq> []
        \<and> r = \<lparr>rec_id = compute_id L (strip L p0), question = strip L p0, answer = strip L p1\<rparr>"
  then obtain p0 p1 where s: "strip L raw = p0 @ 124 # p1" and n: "124 \<notin> set p0"
    and q: "strip L p0 \<noteq> []" "strip L p1 \<noteq> []"
    and r: "r = \<lparr>rec_id = compute_id L (strip L p0), question = strip L p0, answer = strip L p1\<rparr>"
    by blast
  have sf: "split_first 124 (strip L raw) = [p0, p1]"
    unfolding s by (rule split_first_at [OF n])
  have "strip L raw \<noteq> []" "124 \<in> set (strip L raw)" using s by simp_all
  with sf q r show "parse_line L raw = Some r"
    by (simp add: parse_line_def Let_def)
qed

lemma parse_line_id:
  "parse_line L raw = Some r \<Longrightarrow> rec_id r = compute_id L (question r) \<and> strip L (question r) = question r"
  by (auto simp: parse_line_Some_iff strip_idem)

lemma parse_lines_ids:
  "r \<in> set (parse_lines L fh []) \<Longrightarrow> rec_id r = compute_id L (question r) \<and> strip L (question r) = question r"
  by (auto simp: parse_lines_map_filter List.map_filter_def dest: parse_line_id)

lemma find_last:
  "P r \<Longrightarrow> \<forall>y\<in>set ys. \<not> P y \<Longrightarrow> find P (rev (xs @ r # ys)) = Some r"
  by (induction ys rule: rev_induct) auto

lemma load_Inr:
  "load_questions_internal L (Some (m, fh)) st = Inr st' \<Longrightarrow>
   questions st' = parse_lines L fh [] \<and> id_map st' = build_id_map (questions st')
   \<and> used st' = used st \<and> mtime st' = mtime st"
  by (auto simp: load_questions_internal_def Let_def split: if_splits)

lemma reload_changed:
  assumes "mtime st \<noteq> Some m" "parse_lines L fh [] \<noteq> []"
  shows "reload_if_needed L (Some (m, fh)) False st
           = Inr (st\<lparr>questions := parse_lines L fh [],
                      id_map := build_id_map (parse_lines L fh []), mtime := Some m\<rparr>)"
  using assms by (simp add: reload_if_needed_def load_questions_internal_def Let_def)

lemma reload_changed_empty:
  assumes "mtime st \<noteq> Some m" "parse_lines L fh [] = []"
  shows "reload_if_needed L (Some (m, fh)) False st = Inl EmptyStore"
  using assms by (simp add: reload_if_needed_def load_questions_internal_def Let_def)

lemma reload_same:
  "mtime st = Some m \<Longrightarrow> reload_if_needed L (Some (m, fh)) False st = Inr st"
  by (simp add: reload_if_needed_def)

lemma card_store_ids:
  "distinct (map rec_id (questions st)) \<Longrightarrow> card (store_ids st) = length (questions st)"
  using distinct_card [of "map rec_id (questions st)"] by (simp add: store_ids_def)

section \<open>Properties of the normalization routine\<close>

text \<open>
  Claim C10. For every input, \<open>None\<close> included, the normalized answer contains only
  ASCII digits, ASCII lowercase letters and spaces, has no two consecutive spaces and
  neither starts nor ends with a space.
\<close>

theorem normalize_normal_form: "normal_form (normalize_answer L x)"
proof -
  obtain ts where "\<forall>t\<in>set ts. clean_token t" "normalize_answer L x = join_sp ts"
    using normalize_tokens by blast
  then show ?thesis by (simp add: join_sp_normal_form)
qed

theorem normalize_normal_form_witness:
  "normal_form (normalize_answer ascii_lib (Some (str_of ''  Dr.  No, 007! '')))
   \<and> normalize_answer ascii_lib (Some (str_of ''  Dr.  No, 007! '')) = str_of ''dr no 007''
   \<and> normalize_answer ascii_lib None = []"
  using normalize_normal_form [of ascii_lib "Some (str_of ''  Dr.  No, 007! '')"]
  by code_simp

text \<open>
  Claim C4, as the code has it. For every input,
  \<open>normalize(normalize(x)) = normalize(x)\<close> holds exactly when no token of
  \<open>normalize(x)\<close> (its parts between spaces) is one of the thirteen number words;
  and \<open>normalize(normalize(normalize(x))) = normalize(normalize(x))\<close> holds always.
\<close>

theorem normalize_twice:
  "(normalize_answer L (Some (normalize_answer L x)) = normalize_answer L x
      \<longleftrightarrow> (\<forall>t\<in>set (split_ws L (normalize_answer L x)). t \<notin> fst ` set NUMBER_WORDS))
   \<and> normalize_answer L (Some (normalize_answer L (Some (normalize_answer L x))))
       = normalize_answer L (Some (normalize_answer L x))"
proof -
  let ?F = "subst_token NUMBER_WORDS"
  obtain ts where ts: "\<forall>t\<in>set ts. clean_token t" and n: "normalize_answer L x = join_sp ts"
    using normalize_tokens by blast
  have tk: "\<forall>t\<in>set ts. is_token L t" using ts by (simp add: clean_token_is_token)
  have sp: "split_ws L (normalize_answer L x) = ts"
    unfolding n by (rule split_ws_join_sp [OF tk])
  have n2: "normalize_answer L (Some (normalize_answer L x)) = join_sp (map ?F ts)"
    unfolding n by (rule normalize_join_sp [OF ts])
  have ts': "\<forall>t\<in>set (map ?F ts). clean_token t"
    using ts subst_token_clean [OF table_clean] by simp
  have tk': "\<forall>t\<in>set (map ?F ts). is_token L t" using ts' by (simp add: clean_token_is_token)
  have "normalize_answer L (Some (join_sp (map ?F ts))) = join_sp (map ?F (map ?F ts))"
    by (rule normalize_join_sp [OF ts'])
  then have third: "normalize_answer L (Some (normalize_answer L (Some (normalize_answer L x))))
       = normalize_answer L (Some (normalize_answer L x))"
    by (simp add: n2 subst_token_idem comp_def)
  have "join_sp (map ?F ts) = join_sp ts \<longleftrightarrow> map ?F ts = ts"
    using split_ws_join_sp [OF tk] split_ws_join_sp [OF tk'] by metis
  also have "\<dots> \<longleftrightarrow> (\<forall>t\<in>set ts. ?F t = t)"
    by (rule map_eq_self_iff)
  also have "\<dots> \<longleftrightarrow> (\<forall>t\<in>set ts. t \<notin> fst ` set NUMBER_WORDS)"
    using subst_token_changes [of _] subst_token_fix [of _ NUMBER_WORDS] by blast
  finally have iff: "join_sp (map ?F ts) = join_sp ts
      \<longleftrightarrow> (\<forall>t\<in>set ts. t \<notin> fst ` set NUMBER_WORDS)" .
  have first: "normalize_answer L (Some (normalize_answer L x)) = normalize_answer L x
      \<longleftrightarrow> (\<forall>t\<in>set (split_ws L (normalize_answer L x)). t \<notin> fst ` set NUMBER_WORDS)"
    unfolding sp n2 unfolding n by (rule iff)
  show ?thesis
    by (intro conjI first third)
qed

theorem normalize_twice_witness:
  "split_ws ascii_lib (normalize_answer ascii_lib (Some (str_of ''Seven days'')))
     = [str_of ''7'', str_of ''days'']
   \<and> normalize_answer ascii_lib (Some (normalize_answer ascii_lib (Some (str_of ''Seven days''))))
       = normalize_answer ascii_lib (Some (str_of ''Seven days''))"
proof -
  have n: "normalize_answer ascii_lib (Some (str_of ''Seven days'')) = str_of ''7 days''"
    by code_simp
  have sp: "split_ws ascii_lib (normalize_answer ascii_lib (Some (str_of ''Seven days'')))
     = [str_of ''7'', str_of ''days'']"
    unfolding n by code_simp
  have h: "\<forall>t\<in>set (split_ws ascii_lib (normalize_answer ascii_lib (Some (str_of ''Seven days'')))).
      t \<notin> fst ` set NUMBER_WORDS"
    unfolding sp by code_simp
  show ?thesis
    using h sp normalize_twice [of ascii_lib "Some (str_of ''Seven days'')"] by blast
qed

text \<open>
  The claim as the specification states it fails: in \<open>"o-ne"\<close> no number word
  stands between word boundaries, the hyphen is then removed, and the result
  \<open>"one"\<close> is a number word, which a second pass replaces by \<open>"1"\<close>.
\<close>

theorem normalize_idempotent_counterexample:
  "normalize_answer ascii_lib (Some (normalize_answer ascii_lib (Some (str_of ''o-ne''))))
     \<noteq> normalize_answer ascii_lib (Some (str_of ''o-ne''))"
  by code_simp

text \<open>
  Claim C5, as the code has it. On \<open>"seven-teen"\<close> the word \<open>seven\<close> stands between
  the start of the string and a hyphen, both word boundaries, so it is replaced by
  \<open>7\<close> before the hyphen is removed; removing the hyphen leaves no space. The result
  is \<open>"7teen"\<close>, which is not \<open>"17"\<close>.
\<close>

theorem normalize_seven_teen:
  "normalize_answer L (Some (str_of ''seven-teen'')) = str_of ''7teen''
   \<and> normalize_answer L (Some (str_of ''seven-teen'')) \<noteq> str_of ''17''"
  by (simp add: normalize_answer_def str_of_def nfkd_def is_ascii_def combining_def lower_def
      ascii_lower_def NUMBER_WORDS_def re_sub_word.simps match_here_def boundary_def isword_def
      is_digit_def is_lower_az_def remove_punctuation_def isspace_def strip_def)

theorem normalize_seven_teen_counterexample:
  "normalize_answer ascii_lib (Some (str_of ''seven-teen'')) \<noteq> str_of ''seven teen''"
  by code_simp

section \<open>Properties of the store\<close>

text \<open>
  Claim C6. The id of a question text is the lowercase hexadecimal digest of SHA-256
  over the UTF-8 bytes of the trimmed text: it consists of the characters \<open>0\<close>..\<open>9\<close>
  and \<open>a\<close>..\<open>f\<close>, and two texts with the same trimmed form get the same id. Every
  loaded record carries the id of its own, already trimmed, question, and after a
  load the id map sends each id to the last record of the sequence that has it.
\<close>

theorem stable_id:
  "compute_id L q = hexdigest (sha256 L (encode_utf8 L (strip L q)))
   \<and> list_all (\<lambda>c. is_digit c \<or> (97 \<le> c \<and> c \<le> 102)) (compute_id L q)
   \<and> (strip L q = strip L q' \<longrightarrow> compute_id L q = compute_id L q')
   \<and> (\<forall>r\<in>set (parse_lines L fh []).
         rec_id r = compute_id L (question r) \<and> strip L (question r) = question r)
   \<and> (load_questions_internal L (Some (m, fh)) st = Inr st' \<longrightarrow>
         id_map st' i = find (\<lambda>r. rec_id r = i) (rev (questions st'))
         \<and> (questions st' = xs @ r # ys \<and> (\<forall>y\<in>set ys. rec_id y \<noteq> rec_id r)
              \<longrightarrow> id_map st' (rec_id r) = Some r))"
proof -
  have a: "compute_id L q = hexdigest (sha256 L (encode_utf8 L (strip L q)))"
    by (simp add: compute_id_def)
  have b: "list_all (\<lambda>c. is_digit c \<or> (97 \<le> c \<and> c \<le> 102)) (compute_id L q)"
    unfolding compute_id_def by (rule hexdigest_chars)
  have c: "strip L q = strip L q' \<longrightarrow> compute_id L q = compute_id L q'"
    by (simp add: compute_id_def)
  have d: "\<forall>r\<in>set (parse_lines L fh []).
         rec_id r = compute_id L (question r) \<and> strip L (question r) = question r"
    using parse_lines_ids by blast
  have e: "id_map st' i = find (\<lambda>r. rec_id r = i) (rev (questions st'))
         \<and> (questions st' = xs @ r # ys \<and> (\<forall>y\<in>set ys. rec_id y \<noteq> rec_id r)
              \<longrightarrow> id_map st' (rec_id r) = Some r)"
    if l: "load_questions_internal L (Some (m, fh)) st = Inr st'"
  proof -
    have im: "id_map st' = build_id_map (questions st')" using load_Inr [OF l] by simp
    have "id_map st' (rec_id r) = Some r"
      if "questions st' = xs @ r # ys" "\<forall>y\<in>set ys. rec_id y \<noteq> rec_id r"
      using that find_last [of "\<lambda>x. rec_id x = rec_id r" r ys xs]
      by (simp add: im build_id_map_find)
    then show ?thesis by (simp add: im build_id_map_find)
  qed
  from a b c d e show ?thesis by blast
qed

theorem stable_id_witness:
  "strip ascii_lib (str_of ''  Q '') = strip ascii_lib (str_of ''Q'')
   \<and> compute_id ascii_lib (str_of ''  Q '') = compute_id ascii_lib (str_of ''Q'')
   \<and> compute_id ascii_lib (str_of ''Q'') = str_of ''51''
   \<and> load_questions_internal ascii_lib dup_file dup_store = Inr dup_store
   \<and> questions dup_store
       = [\<lparr>rec_id = str_of ''51'', question = str_of ''Q'', answer = str_of ''A''\<rparr>]
         @ \<lparr>rec_id = str_of ''51'', question = str_of ''Q'', answer = str_of ''B''\<rparr> # []
   \<and> id_map dup_store (str_of ''51'')
       = Some \<lparr>rec_id = str_of ''51'', question = str_of ''Q'', answer = str_of ''B''\<rparr>"
proof -
  let ?a = "\<lparr>rec_id = str_of ''51'', question = str_of ''Q'', answer = str_of ''A''\<rparr>"
  let ?b = "\<lparr>rec_id = str_of ''51'', question = str_of ''Q'', answer = str_of ''B''\<rparr>"
  have h1: "strip ascii_lib (str_of ''  Q '') = strip ascii_lib (str_of ''Q'')" by code_simp
  have e1: "compute_id ascii_lib (str_of ''Q'') = str_of ''51''" by code_simp
  have h2: "load_questions_internal ascii_lib dup_file dup_store = Inr dup_store"
    by (simp add: load_questions_internal_def dup_file_def dup_store_def Let_def dup_parsed)
  have h3: "questions dup_store = [?a] @ ?b # []"
    by (simp add: dup_store_def dup_parsed)
  have h4: "\<forall>y\<in>set []. rec_id y \<noteq> rec_id ?b" by simp
  have rb: "rec_id ?b = str_of ''51''" by simp
  from stable_id [of ascii_lib "str_of ''  Q ''" "str_of ''Q''" dup_lines 1 dup_store dup_store
      "str_of ''51''" "[?a]" ?b "[]"] h1 h2 [unfolded dup_file_def] h3 h4
  have "compute_id ascii_lib (str_of ''  Q '') = compute_id ascii_lib (str_of ''Q'')"
    and "id_map dup_store (rec_id ?b) = Some ?b"
    by blast+
  with h1 e1 h2 h3 rb show ?thesis by simp
qed

text \<open>
  Claim C7. A raw line yields a record exactly when, after trimming, it splits at its
  first \<open>|\<close> into two parts that are both non-empty once trimmed; the record holds
  the trimmed parts. Every other line (blank, without delimiter, with an empty part)
  is skipped without error. Loading fails with \<open>FileNotFoundError\<close> exactly when
  the file is missing, with the empty-store \<open>ValueError\<close> exactly when the file is
  there and no line yields a record, and otherwise stores the records of the valid
  lines in file order together with their id map.
\<close>

theorem load_parses_lines:
  "(parse_line L raw = Some r \<longleftrightarrow>
     (\<exists>p0 p1. strip L raw = p0 @ 124 # p1 \<and> 124 \<notin> set p0
        \<and> strip L p0 \<noteq> [] \<and> strip L p1 \<noteq> []
        \<and> r = \<lparr>rec_id = compute_id L (strip L p0), question = strip L p0, answer = strip L p1\<rparr>))
   \<and> (load_questions_internal L res st = Inl FileNotFoundError \<longleftrightarrow> res = None)
   \<and> (load_questions_internal L res st = Inl EmptyStore \<longleftrightarrow>
        (\<exists>m fh. res = Some (m, fh) \<and> (\<forall>raw\<in>set fh. parse_line L raw = None)))
   \<and> (res = Some (m, fh) \<and> (\<exists>raw\<in>set fh. parse_line L raw \<noteq> None) \<longrightarrow>
        load_questions_internal L res st
          = Inr (st\<lparr>questions := List.map_filter (parse_line L) fh,
                    id_map := build_id_map (List.map_filter (parse_line L) fh)\<rparr>))"
proof -
  have e: "List.map_filter (parse_line L) fh' = [] \<longleftrightarrow> (\<forall>raw\<in>set fh'. parse_line L raw = None)" for fh'
    by (auto simp: List.map_filter_def filter_empty_conv)
  have b: "load_questions_internal L res st = Inl FileNotFoundError \<longleftrightarrow> res = None"
    by (auto simp: load_questions_internal_def Let_def split: option.splits)
  have c: "load_questions_internal L res st = Inl EmptyStore \<longleftrightarrow>
        (\<exists>m fh. res = Some (m, fh) \<and> (\<forall>raw\<in>set fh. parse_line L raw = None))"
    by (cases res)
       (auto simp: load_questions_internal_def Let_def parse_lines_map_filter e split: if_splits)
  have d: "res = Some (m, fh) \<and> (\<exists>raw\<in>set fh. parse_line L raw \<noteq> None) \<longrightarrow>
        load_questions_internal L res st
          = Inr (st\<lparr>questions := List.map_filter (parse_line L) fh,
                    id_map := build_id_map (List.map_filter (parse_line L) fh)\<rparr>)"
    using e [of fh] by (auto simp: load_questions_internal_def Let_def parse_lines_map_filter)
  from parse_line_Some_iff [of L raw r] b c d show ?thesis by blast
qed

theorem load_parses_lines_witness:
  "strip ascii_lib (str_of ''Q  1 | Paris'' @ [10]) = str_of ''Q  1 '' @ 124 # str_of '' Paris''
   \<and> parse_line ascii_lib (str_of ''Q  1 | Paris'' @ [10])
       = Some \<lparr>rec_id = str_of ''51202031'', question = str_of ''Q  1'', answer = str_of ''Paris''\<rparr>
   \<and> parse_line ascii_lib (str_of ''no delimiter'' @ [10]) = None
   \<and> parse_line ascii_lib [10] = None
   \<and> parse_line ascii_lib (str_of '' | x'' @ [10]) = None
   \<and> load_questions_internal ascii_lib None demo_store = Inl FileNotFoundError
   \<and> load_questions_internal ascii_lib (Some (1, [str_of ''no delimiter'' @ [10], [10]])) demo_store
       = Inl EmptyStore
   \<and> load_questions_internal ascii_lib demo_file dup_store
       = Inr (dup_store\<lparr>questions := List.map_filter (parse_line ascii_lib) demo_lines,
                id_map := build_id_map (List.map_filter (parse_line ascii_lib) demo_lines)\<rparr>)
   \<and> List.map_filter (parse_line ascii_lib) demo_lines
       = [\<lparr>rec_id = str_of ''51202031'', question = str_of ''Q  1'', answer = str_of ''Paris''\<rparr>,
          \<lparr>rec_id = str_of ''5132'', question = str_of ''Q2'', answer = str_of ''7 a|b''\<rparr>]"
proof -
  let ?raw = "str_of ''Q  1 | Paris'' @ [10]"
  let ?r = "\<lparr>rec_id = str_of ''51202031'', question = str_of ''Q  1'', answer = str_of ''Paris''\<rparr>"
  have s: "strip ascii_lib ?raw = str_of ''Q  1 '' @ 124 # str_of '' Paris''" by code_simp
  have n: "124 \<notin> set (str_of ''Q  1 '')" by code_simp
  have q: "strip ascii_lib (str_of ''Q  1 '') \<noteq> []" "strip ascii_lib (str_of '' Paris'') \<noteq> []"
    by code_simp+
  have r: "?r = \<lparr>rec_id = compute_id ascii_lib (strip ascii_lib (str_of ''Q  1 '')),
                 question = strip ascii_lib (str_of ''Q  1 ''),
                 answer = strip ascii_lib (str_of '' Paris'')\<rparr>"
    by code_simp
  have p1: "parse_line ascii_lib (str_of ''no delimiter'' @ [10]) = None" by code_simp
  have p2: "parse_line ascii_lib [10] = None" by code_simp
  have p3: "parse_line ascii_lib (str_of '' | x'' @ [10]) = None" by code_simp
  have v: "\<exists>raw\<in>set demo_lines. parse_line ascii_lib raw \<noteq> None" by code_simp
  have mf: "List.map_filter (parse_line ascii_lib) demo_lines
       = [?r, \<lparr>rec_id = str_of ''5132'', question = str_of ''Q2'', answer = str_of ''7 a|b''\<rparr>]"
    by code_simp
  have ex: "\<exists>p0 p1. strip ascii_lib ?raw = p0 @ 124 # p1 \<and> 124 \<notin> set p0
        \<and> strip ascii_lib p0 \<noteq> [] \<and> strip ascii_lib p1 \<noteq> []
        \<and> ?r = \<lparr>rec_id = compute_id ascii_lib (strip ascii_lib p0),
                  question = strip ascii_lib p0, answer = strip ascii_lib p1\<rparr>"
    using s n q r by blast
  have a: "parse_line ascii_lib ?raw = Some ?r"
    using load_parses_lines [of ascii_lib ?raw ?r None demo_store 1 "[]"] ex by blast
  have b: "load_questions_internal ascii_lib None demo_store = Inl FileNotFoundError"
    using load_parses_lines [of ascii_lib ?raw ?r None demo_store 1 "[]"] by blast
  have "\<forall>raw\<in>set [str_of ''no delimiter'' @ [10], [10]]. parse_line ascii_lib raw = None"
    using p1 p2 by simp
  then have c: "load_questions_internal ascii_lib
        (Some (1, [str_of ''no delimiter'' @ [10], [10]])) demo_store = Inl EmptyStore"
    using load_parses_lines [of ascii_lib ?raw ?r
        "Some (1, [str_of ''no delimiter'' @ [10], [10]])" demo_store 1 "[]"] by blast
  have d: "load_questions_internal ascii_lib demo_file dup_store
       = Inr (dup_store\<lparr>questions := List.map_filter (parse_line ascii_lib) demo_lines,
                id_map := build_id_map (List.map_filter (parse_line ascii_lib) demo_lines)\<rparr>)"
    using load_parses_lines [of ascii_lib ?raw ?r demo_file dup_store 1 demo_lines] v
    by (simp add: demo_file_def)
  from s a p1 p2 p3 b c d mf show ?thesis by blast
qed

text \<open>
  Claim C8. Each of \<open>load_questions\<close>, \<open>get_random_question\<close> and
  \<open>validate_answer\<close> begins with the reload check. With the file missing the call
  fails with \<open>FileNotFoundError\<close> and the cached data is not served. With a
  modification time other than the recorded one the file is parsed again: when it
  yields records the call runs on the new sequence and id map, which it leaves in the
  manager with the new time; when it yields none the call fails with the empty-store
  error. With the recorded modification time nothing is parsed.
\<close>

theorem reload_before_read:
  "(res = None \<longrightarrow>
      load_questions L res st = (Inl FileNotFoundError, st)
      \<and> get_random_question L res rnd st = (Inl FileNotFoundError, st)
      \<and> validate_answer L res qid ans st = (Inl FileNotFoundError, st))
   \<and> (res = Some (m, fh) \<and> mtime st \<noteq> Some m \<and> parse_lines L fh [] \<noteq> [] \<longrightarrow>
        (let st1 = st\<lparr>questions := parse_lines L fh [],
                       id_map := build_id_map (parse_lines L fh []), mtime := Some m\<rparr>
         in load_questions L res st
              = (Inr (map (\<lambda>r. (question r, answer r)) (parse_lines L fh [])), st1)
            \<and> get_random_question L res rnd st = get_random_question L res rnd st1
            \<and> validate_answer L res qid ans st = validate_answer L res qid ans st1
            \<and> reload_if_needed L res False st1 = Inr st1))
   \<and> (res = Some (m, fh) \<and> mtime st \<noteq> Some m \<and> parse_lines L fh [] = [] \<longrightarrow>
        load_questions L res st = (Inl EmptyStore, st)
        \<and> get_random_question L res rnd st = (Inl EmptyStore, st)
        \<and> validate_answer L res qid ans st = (Inl EmptyStore, st))
   \<and> (res = Some (m, fh) \<and> mtime st = Some m \<longrightarrow>
        reload_if_needed L res False st = Inr st
        \<and> load_questions L res st = (Inr (map (\<lambda>r. (question r, answer r)) (questions st)), st))"
proof -
  have a: "load_questions L None st = (Inl FileNotFoundError, st)
      \<and> get_random_question L None rnd st = (Inl FileNotFoundError, st)
      \<and> validate_answer L None qid ans st = (Inl FileNotFoundError, st)"
    by (simp add: load_questions_def get_random_question_def validate_answer_def
        reload_if_needed_def)
  have b: "let st1 = st\<lparr>questions := parse_lines L fh [],
                       id_map := build_id_map (parse_lines L fh []), mtime := Some m\<rparr>
         in load_questions L (Some (m, fh)) st
              = (Inr (map (\<lambda>r. (question r, answer r)) (parse_lines L fh [])), st1)
            \<and> get_random_question L (Some (m, fh)) rnd st
                = get_random_question L (Some (m, fh)) rnd st1
            \<and> validate_answer L (Some (m, fh)) qid ans st
                = validate_answer L (Some (m, fh)) qid ans st1
            \<and> reload_if_needed L (Some (m, fh)) False st1 = Inr st1"
    if h: "mtime st \<noteq> Some m" "parse_lines L fh [] \<noteq> []"
  proof -
    let ?st1 = "st\<lparr>questions := parse_lines L fh [],
                       id_map := build_id_map (parse_lines L fh []), mtime := Some m\<rparr>"
    have r: "reload_if_needed L (Some (m, fh)) False st = Inr ?st1"
      by (rule reload_changed [OF h])
    have r1: "reload_if_needed L (Some (m, fh)) False ?st1 = Inr ?st1"
      by (rule reload_same) simp
    show ?thesis
      unfolding Let_def load_questions_def get_random_question_def validate_answer_def r r1
      by simp
  qed
  have c: "load_questions L (Some (m, fh)) st = (Inl EmptyStore, st)
        \<and> get_random_question L (Some (m, fh)) rnd st = (Inl EmptyStore, st)
        \<and> validate_answer L (Some (m, fh)) qid ans st = (Inl EmptyStore, st)"
    if h: "mtime st \<noteq> Some m" "parse_lines L fh [] = []"
    unfolding load_questions_def get_random_question_def validate_answer_def
      reload_changed_empty [OF h] by simp
  have d: "reload_if_needed L (Some (m, fh)) False st = Inr st
        \<and> load_questions L (Some (m, fh)) st
            = (Inr (map (\<lambda>r. (question r, answer r)) (questions st)), st)"
    if h: "mtime st = Some m"
    unfolding load_questions_def reload_same [OF h] by simp
  from a b c d show ?thesis by blast
qed

theorem reload_before_read_witness:
  "mtime dup_store = Some 1
   \<and> parse_lines ascii_lib demo_lines []
       = [\<lparr>rec_id = str_of ''51202031'', question = str_of ''Q  1'', answer = str_of ''Paris''\<rparr>,
          \<lparr>rec_id = str_of ''5132'', question = str_of ''Q2'', answer = str_of ''7 a|b''\<rparr>]
   \<and> load_questions ascii_lib (Some (2, demo_lines)) dup_store
       = (Inr [(str_of ''Q  1'', str_of ''Paris''), (str_of ''Q2'', str_of ''7 a|b'')],
          dup_store\<lparr>questions := parse_lines ascii_lib demo_lines [],
                    id_map := build_id_map (parse_lines ascii_lib demo_lines []),
                    mtime := Some 2\<rparr>)
   \<and> fst (validate_answer ascii_lib (Some (2, demo_lines)) (str_of ''51'') (Some (str_of ''B''))
            dup_store) = Inl UnknownQuestion
   \<and> fst (validate_answer ascii_lib (Some (1, demo_lines)) (str_of ''51'') (Some (str_of ''B''))
            dup_store) = Inr True
   \<and> load_questions ascii_lib None dup_store = (Inl FileNotFoundError, dup_store)
   \<and> load_questions ascii_lib (Some (2, [[10]])) dup_store = (Inl EmptyStore, dup_store)"
proof -
  have m: "mtime dup_store = Some 1" by (simp add: dup_store_def)
  have m2: "mtime dup_store \<noteq> Some 2" by (simp add: dup_store_def)
  have ne: "parse_lines ascii_lib demo_lines [] \<noteq> []" unfolding demo_parsed by simp
  have em: "parse_lines ascii_lib [[10]] [] = []" by code_simp
  have v1: "fst (validate_answer ascii_lib (Some (2, demo_lines)) (str_of ''51'')
                  (Some (str_of ''B'')) dup_store) = Inl UnknownQuestion" by code_simp
  have v2: "fst (validate_answer ascii_lib (Some (1, demo_lines)) (str_of ''51'')
                  (Some (str_of ''B'')) dup_store) = Inr True" by code_simp
  have a: "load_questions ascii_lib (Some (2, demo_lines)) dup_store
       = (Inr (map (\<lambda>r. (question r, answer r)) (parse_lines ascii_lib demo_lines [])),
          dup_store\<lparr>questions := parse_lines ascii_lib demo_lines [],
                    id_map := build_id_map (parse_lines ascii_lib demo_lines []),
                    mtime := Some 2\<rparr>)"
    using reload_before_read [of "Some (2, demo_lines)" ascii_lib dup_store 0 "[]" None 2 demo_lines]
      m2 ne by (simp add: Let_def)
  have b: "load_questions ascii_lib None dup_store = (Inl FileNotFoundError, dup_store)"
    using reload_before_read [of None ascii_lib dup_store 0 "[]" None 2 demo_lines] by simp
  have c: "load_questions ascii_lib (Some (2, [[10]])) dup_store = (Inl EmptyStore, dup_store)"
    using reload_before_read [of "Some (2, [[10]])" ascii_lib dup_store 0 "[]" None 2 "[[10]]"]
      m2 em by simp
  from m a b c v1 v2 show ?thesis
    by (simp add: demo_parsed)
qed

section \<open>Properties of the dispenser\<close>

text \<open>
  Claim C1. Once the reload check of \<open>validate_answer\<close> has passed and left the
  manager in state \<open>st1\<close>: the call fails with the unknown-question \<open>KeyError\<close>
  exactly when the id is not a key of the id map of \<open>st1\<close>; for a known id and an
  absent answer it returns False without error; for a known id and a string it returns
  whether the normalized stored answer equals the normalized given answer.
\<close>

theorem validate_answer_result:
  assumes "reload_if_needed L res False st = Inr st1"
  shows "(fst (validate_answer L res qid ans st) = Inl UnknownQuestion \<longleftrightarrow> qid \<notin> dom (id_map st1))
       \<and> (qid \<in> dom (id_map st1) \<longrightarrow> validate_answer L res qid None st = (Inr False, st1))
       \<and> (id_map st1 qid = Some r \<longrightarrow>
            validate_answer L res qid (Some a) st
              = (Inr (normalize_answer L (Some (answer r)) = normalize_answer L (Some a)), st1))"
  using assms by (auto simp: validate_answer_def split: option.splits)

theorem validate_answer_result_witness:
  "reload_if_needed ascii_lib demo_file False demo_store = Inr demo_store
   \<and> id_map demo_store (str_of ''51202031'')
       = Some \<lparr>rec_id = str_of ''51202031'', question = str_of ''Q  1'', answer = str_of ''Paris''\<rparr>
   \<and> fst (validate_answer ascii_lib demo_file (str_of ''51202031'') (Some (str_of ''  PARIS! ''))
            demo_store) = Inr True
   \<and> fst (validate_answer ascii_lib demo_file (str_of ''51202031'') (Some (str_of ''par is''))
            demo_store) = Inr False
   \<and> fst (validate_answer ascii_lib demo_file (str_of ''51202031'') None demo_store) = Inr False
   \<and> id_map demo_store (str_of ''00'') = None
   \<and> fst (validate_answer ascii_lib demo_file (str_of ''00'') (Some (str_of ''Paris'')) demo_store)
       = Inl UnknownQuestion"
proof -
  let ?r = "\<lparr>rec_id = str_of ''51202031'', question = str_of ''Q  1'', answer = str_of ''Paris''\<rparr>"
  have h: "reload_if_needed ascii_lib demo_file False demo_store = Inr demo_store"
    by (simp add: reload_if_needed_def demo_file_def demo_store_def)
  have k: "id_map demo_store (str_of ''51202031'') = Some ?r" by code_simp
  have n: "id_map demo_store (str_of ''00'') = None" by code_simp
  have e1: "(normalize_answer ascii_lib (Some (answer ?r))
              = normalize_answer ascii_lib (Some (str_of ''  PARIS! ''))) = True" by code_simp
  have e2: "(normalize_answer ascii_lib (Some (answer ?r))
              = normalize_answer ascii_lib (Some (str_of ''par is''))) = False" by code_simp
  from validate_answer_result [OF h, of "str_of ''51202031''" "None" ?r "str_of ''  PARIS! ''"] k e1
  have a: "fst (validate_answer ascii_lib demo_file (str_of ''51202031'')
                 (Some (str_of ''  PARIS! '')) demo_store) = Inr True"
    and b: "fst (validate_answer ascii_lib demo_file (str_of ''51202031'') None demo_store) = Inr False"
    by (auto simp: domIff)
  from validate_answer_result [OF h, of "str_of ''51202031''" "None" ?r "str_of ''par is''"] k e2
  have c: "fst (validate_answer ascii_lib demo_file (str_of ''51202031'')
                 (Some (str_of ''par is'')) demo_store) = Inr False"
    by (auto simp: domIff)
  from validate_answer_result [OF h, of "str_of ''00''" "Some (str_of ''Paris'')"] n
  have d: "fst (validate_answer ascii_lib demo_file (str_of ''00'') (Some (str_of ''Paris''))
                 demo_store) = Inl UnknownQuestion"
    by (auto simp: domIff)
  from h k n a b c d show ?thesis by simp
qed

text \<open>
  Claim C3. A successful \<open>get_random_question\<close> returns a dictionary with exactly the
  keys \<open>id\<close>, \<open>question\<close> and \<open>words\<close>, in this order, taken from one record of
  the store; there is no key \<open>answer\<close>. The words are the question text split on
  whitespace runs: every word is non-empty and free of whitespace, the words in order
  contain exactly the non-whitespace characters of the text, and joined by single
  spaces they give the text with its whitespace runs collapsed and its ends trimmed.
\<close>

theorem get_random_question_fields:
  assumes "get_random_question L res rnd st = (Inr d, st')"
  shows "\<exists>r\<in>set (questions st').
           d = [(''id'', Str (rec_id r)), (''question'', Str (question r)),
                (''words'', StrList (split_ws L (question r)))]
           \<and> map fst d = [''id'', ''question'', ''words'']
           \<and> map_of d ''answer'' = None
           \<and> (\<forall>w\<in>set (split_ws L (question r)). w \<noteq> [] \<and> (\<forall>c\<in>set w. \<not> isspace L c))
           \<and> concat (split_ws L (question r)) = filter (\<lambda>c. \<not> isspace L c) (question r)
           \<and> join_sp (split_ws L (question r)) = strip L (collapse_ws L (question r))"
proof -
  from assms obtain st1 where r: "reload_if_needed L res False st = Inr st1"
    by (auto simp: get_random_question_def split: sum.splits)
  let ?av = "filter (\<lambda>r. rec_id r \<notin> used st1) (questions st1)"
  let ?ch = "?av ! (rnd mod length ?av)"
  from assms r have ne: "?av \<noteq> []"
    by (auto simp: get_random_question_def Let_def split: if_splits)
  from assms r ne have d: "d = [(''id'', Str (rec_id ?ch)), (''question'', Str (question ?ch)),
                (''words'', StrList (split_ws L (question ?ch)))]"
    and st': "st' = st1\<lparr>used := insert (rec_id ?ch) (used st1)\<rparr>"
    by (auto simp: get_random_question_def Let_def)
  have "?ch \<in> set ?av" using ne by (intro nth_mem) simp
  then have mem: "?ch \<in> set (questions st')" by (simp add: st')
  have tok: "\<forall>w\<in>set (split_ws L (question ?ch)). w \<noteq> [] \<and> (\<forall>c\<in>set w. \<not> isspace L c)"
    using split_ws_tokens [of _ L "question ?ch"] by (auto simp: is_token_def list_all_iff)
  show ?thesis
    using mem d tok concat_split_ws [of L "question ?ch"]
      strip_collapse_split [of L "question ?ch", symmetric]
    by (intro bexI [of _ ?ch]) simp_all
qed

theorem get_random_question_fields_witness:
  "fst (get_random_question ascii_lib demo_file 0 demo_store)
     = Inr [(''id'', Str (str_of ''51202031'')), (''question'', Str (str_of ''Q  1'')),
            (''words'', StrList [str_of ''Q'', str_of ''1''])]
   \<and> used (snd (get_random_question ascii_lib demo_file 0 demo_store)) = {str_of ''51202031''}
   \<and> (\<exists>r\<in>set (questions (snd (get_random_question ascii_lib demo_file 0 demo_store))).
         [(''id'', Str (str_of ''51202031'')), (''question'', Str (str_of ''Q  1'')),
          (''words'', StrList [str_of ''Q'', str_of ''1''])]
           = [(''id'', Str (rec_id r)), (''question'', Str (question r)),
              (''words'', StrList (split_ws ascii_lib (question r)))])"
proof -
  let ?d = "[(''id'', Str (str_of ''51202031'')), (''question'', Str (str_of ''Q  1'')),
            (''words'', StrList [str_of ''Q'', str_of ''1''])]"
  let ?g = "get_random_question ascii_lib demo_file 0 demo_store"
  have f: "fst ?g = Inr ?d" by code_simp
  have u: "used (snd ?g) = {str_of ''51202031''}" by code_simp
  have h: "?g = (Inr ?d, snd ?g)"
    using f by (simp add: prod_eq_iff)
  from get_random_question_fields [OF h]
  have "\<exists>r\<in>set (questions (snd ?g)).
         ?d = [(''id'', Str (rec_id r)), (''question'', Str (question r)),
              (''words'', StrList (split_ws ascii_lib (question r)))]"
    by blast
  with f u show ?thesis by blast
qed

text \<open>
  Claim C2, as the code has it. Let the store be up to date with its file and hold
  records with \<open>N\<close> distinct ids, none of them used yet. Then \<open>N\<close> consecutive
  calls of \<open>get_random_question\<close>, whatever the draws, return \<open>N\<close> pairwise
  distinct ids, namely all ids of the store, and the next call fails with the
  exhausted \<open>ValueError\<close>. \<open>N\<close> is the number of records when no two records
  share an id. With the store up to date, the exhausted error is raised exactly when
  every record's id is in the used set.
\<close>

theorem without_replacement:
  assumes "up_to_date res st" and "used st \<inter> store_ids st = {}"
    and "length rnds = card (store_ids st)"
  shows "(\<exists>ds is. fst (dispense L res (rnds @ [rnd]) st) = map Inr ds @ [Inl Exhausted]
            \<and> length ds = card (store_ids st)
            \<and> map served_id ds = map Some is \<and> distinct is \<and> set is = store_ids st)
       \<and> (distinct (map rec_id (questions st)) \<longrightarrow> card (store_ids st) = length (questions st))
       \<and> (up_to_date res st' \<longrightarrow>
            (fst (get_random_question L res rnd' st') = Inl Exhausted
               \<longleftrightarrow> (\<forall>r\<in>set (questions st'). rec_id r \<in> used st')))"
proof -
  have d: "store_ids st - used st = store_ids st" using assms(2) by auto
  from dispense_all [OF assms(1), of rnds L rnd] assms(3)
  have a: "\<exists>ds is. fst (dispense L res (rnds @ [rnd]) st) = map Inr ds @ [Inl Exhausted]
            \<and> length ds = card (store_ids st)
            \<and> map served_id ds = map Some is \<and> distinct is \<and> set is = store_ids st"
    unfolding d by metis
  have b: "distinct (map rec_id (questions st)) \<longrightarrow> card (store_ids st) = length (questions st)"
    using card_store_ids [of st] by simp
  have c: "up_to_date res st' \<longrightarrow>
            (fst (get_random_question L res rnd' st') = Inl Exhausted
               \<longleftrightarrow> (\<forall>r\<in>set (questions st'). rec_id r \<in> used st'))"
    using exhausted_iff [of res st' L rnd'] by (auto simp: store_ids_def)
  from a b c show ?thesis by blast
qed

theorem without_replacement_witness:
  "up_to_date demo_file demo_store \<and> used demo_store \<inter> store_ids demo_store = {}
   \<and> length [5, 3::nat] = card (store_ids demo_store)
   \<and> distinct (map rec_id (questions demo_store))
   \<and> map (map_sum id served_id) (fst (dispense ascii_lib demo_file ([5, 3] @ [0]) demo_store))
       = [Inr (Some (str_of ''5132'')), Inr (Some (str_of ''51202031'')), Inl Exhausted]
   \<and> (\<exists>ds is. fst (dispense ascii_lib demo_file ([5, 3] @ [0]) demo_store)
                  = map Inr ds @ [Inl Exhausted]
            \<and> length ds = card (store_ids demo_store)
            \<and> map served_id ds = map Some is \<and> distinct is \<and> set is = store_ids demo_store)"
proof -
  have h1: "up_to_date demo_file demo_store" by code_simp
  have h2: "used demo_store \<inter> store_ids demo_store = {}" by code_simp
  have h3: "length [5, 3::nat] = card (store_ids demo_store)" by code_simp
  have h4: "distinct (map rec_id (questions demo_store))" by code_simp
  have ev: "map (map_sum id served_id) (fst (dispense ascii_lib demo_file ([5, 3] @ [0]) demo_store))
       = [Inr (Some (str_of ''5132'')), Inr (Some (str_of ''51202031'')), Inl Exhausted]"
    by code_simp
  from without_replacement [OF h1 h2 h3, of ascii_lib 0] h1 h2 h3 h4 ev
  show ?thesis by blast
qed

text \<open>
  With \<open>N\<close> read as the number of records, the claim fails on a file that holds
  the same question twice: the two records share one id, and the second call is
  already exhausted.
\<close>

theorem without_replacement_counterexample:
  "length (questions dup_store) = 2 \<and> used dup_store = {} \<and> up_to_date dup_file dup_store
   \<and> map (map_sum id served_id) (fst (dispense ascii_lib dup_file [0, 0] dup_store))
       = [Inr (Some (str_of ''51'')), Inl Exhausted]"
  by code_simp

text \<open>
  Claim C9, as the code has it. \<open>clear_cache\<close> cannot fail; it empties the used set
  and changes nothing else, so \<open>get_cache_size\<close> is 0 right after it. With the
  store up to date, a manager that has been cleared, exhausted before or not, again
  serves every id of the store once, one call for each distinct id, and is exhausted
  after that. The number of such calls is the number of records when no two records
  share an id.
\<close>

theorem clear_cache_resets:
  "used (clear_cache st) = {} \<and> get_cache_size (clear_cache st) = 0
   \<and> questions (clear_cache st) = questions st \<and> id_map (clear_cache st) = id_map st
   \<and> mtime (clear_cache st) = mtime st
   \<and> (up_to_date res st \<and> length rnds = card (store_ids st) \<longrightarrow>
        (\<exists>ds is. fst (dispense L res (rnds @ [rnd]) (clear_cache st)) = map Inr ds @ [Inl Exhausted]
            \<and> length ds = card (store_ids st)
            \<and> map served_id ds = map Some is \<and> distinct is \<and> set is = store_ids st))
   \<and> (distinct (map rec_id (questions st)) \<longrightarrow> card (store_ids st) = length (questions st))"
proof -
  have "\<exists>ds is. fst (dispense L res (rnds @ [rnd]) (clear_cache st)) = map Inr ds @ [Inl Exhausted]
            \<and> length ds = card (store_ids st)
            \<and> map served_id ds = map Some is \<and> distinct is \<and> set is = store_ids st"
    if u: "up_to_date res st" and l: "length rnds = card (store_ids st)"
  proof -
    have u': "up_to_date res (clear_cache st)" using u by (simp add: clear_cache_def)
    have d: "store_ids (clear_cache st) - used (clear_cache st) = store_ids st"
      by (simp add: clear_cache_def)
    from dispense_all [OF u', of rnds L rnd] l show ?thesis
      unfolding d by metis
  qed
  then show ?thesis
    using card_store_ids [of st] by (simp add: clear_cache_def get_cache_size_def)
qed

theorem clear_cache_resets_witness:
  "fst (get_random_question ascii_lib demo_file 0
          (snd (dispense ascii_lib demo_file [5, 3] demo_store))) = Inl Exhausted
   \<and> get_cache_size (snd (dispense ascii_lib demo_file [5, 3] demo_store)) = 2
   \<and> get_cache_size (clear_cache (snd (dispense ascii_lib demo_file [5, 3] demo_store))) = 0
   \<and> up_to_date demo_file (snd (dispense ascii_lib demo_file [5, 3] demo_store))
   \<and> length [1, 1::nat] = card (store_ids (snd (dispense ascii_lib demo_file [5, 3] demo_store)))
   \<and> map (map_sum id served_id)
        (fst (dispense ascii_lib demo_file ([1, 1] @ [1])
               (clear_cache (snd (dispense ascii_lib demo_file [5, 3] demo_store)))))
       = [Inr (Some (str_of ''5132'')), Inr (Some (str_of ''51202031'')), Inl Exhausted]
   \<and> (\<exists>ds is. fst (dispense ascii_lib demo_file ([1, 1] @ [1])
                     (clear_cache (snd (dispense ascii_lib demo_file [5, 3] demo_store))))
                  = map Inr ds @ [Inl Exhausted]
            \<and> length ds = 2 \<and> map served_id ds = map Some is \<and> distinct is)"
proof -
  let ?E = "snd (dispense ascii_lib demo_file [5, 3] demo_store)"
  have e1: "fst (get_random_question ascii_lib demo_file 0 ?E) = Inl Exhausted" by code_simp
  have e2: "get_cache_size ?E = 2" by code_simp
  have h1: "up_to_date demo_file ?E" by code_simp
  have h2: "length [1, 1::nat] = card (store_ids ?E)" by code_simp
  have ev: "map (map_sum id served_id)
        (fst (dispense ascii_lib demo_file ([1, 1] @ [1]) (clear_cache ?E)))
       = [Inr (Some (str_of ''5132'')), Inr (Some (str_of ''51202031'')), Inl Exhausted]"
    by code_simp
  from clear_cache_resets [of ?E demo_file "[1, 1]" ascii_lib 1] h1 h2
  have z: "get_cache_size (clear_cache ?E) = 0"
    and ex: "\<exists>ds is. fst (dispense ascii_lib demo_file ([1, 1] @ [1]) (clear_cache ?E))
                  = map Inr ds @ [Inl Exhausted]
            \<and> length ds = card (store_ids ?E) \<and> map served_id ds = map Some is \<and> distinct is"
    by blast+
  from h2 have c2: "card (store_ids ?E) = 2" by simp
  from e1 e2 z h1 h2 ev ex [unfolded c2] show ?thesis by blast
qed

text \<open>
  With the full count read as the number of records, the claim fails on the file
  that holds the same question twice: after exhaustion and \<open>clear_cache\<close> one call
  succeeds and the second is exhausted, though the store holds two records.
\<close>

theorem clear_cache_counterexample:
  "length (questions dup_store) = 2
   \<and> map (map_sum id served_id)
        (fst (dispense ascii_lib dup_file [0, 0]
               (clear_cache (snd (dispense ascii_lib dup_file [0, 0] dup_store)))))
       = [Inr (Some (str_of ''51'')), Inl Exhausted]"
  by code_simp

end
